theory Spec2Isabelle
  imports Main "HOL-Library.Option_ord" "HOL-Library.Multiset"
begin

section \<open>The ticket queue of app.py\<close>

text \<open>
  The program keeps two SQLite tables, \<open>users\<close> and \<open>queue\<close>. A table is modelled as the
  list of its rows in rowid order; rows are never deleted, so an AUTOINCREMENT key is the
  length of the table plus one. \<open>CURRENT_TIMESTAMP\<close> and \<open>date('now')\<close> read the clock:
  every operation takes the current time \<open>now\<close>, in seconds, as an argument and nothing is
  assumed about how the clock moves between two operations. Each endpoint is a function
  from the database to an HTTP response and the database it leaves behind.

  A handler opens its own connection and closes it on every return but those of its
  \<open>except\<close> clauses. A connection left open there after a failed INSERT still holds the
  write lock of the database file: until the garbage collector closes it, every statement
  that writes raises \<open>database is locked\<close>, while reading goes on. The field \<open>locked\<close> of
  the database records that such a connection is open.
\<close>

subsection \<open>Rows\<close>

datatype status = Waiting | Completed | Cancelled

record user =
  uid :: int
  username :: string
  password :: string
  full_name :: string
  phone_number :: "string option"
  email :: "string option"
  role :: string
  created_at :: nat

record ticket =
  ticket_id :: nat
  user_id :: int
  ticket_number :: string
  queue_type :: "string option"
  status :: status
  join_time :: nat
  called_time :: "nat option"
  completed_time :: "nat option"
  position :: "nat option"

record database =
  users :: "user list"
  queue :: "ticket list"
  locked :: bool

text \<open>An optional text field of a JSON body: the key is missing, its value is \<open>null\<close>, or it
  is a string. A column that receives \<open>null\<close> is NULL, \<open>None\<close> here.\<close>

datatype json_text = Absent | Null | Text string

text \<open>The responses of the endpoints, named by the condition they report; the HTTP status
  code of each is given beside it.\<close>

datatype response =
    InvalidInput \<comment> \<open>400, a required field is missing\<close>
  | Registered int string \<comment> \<open>201, user_id and username\<close>
  | UsernameExists \<comment> \<open>409 of /register\<close>
  | AlreadyQueued string "nat option" \<comment> \<open>409 of /join_queue, ticket_number and position\<close>
  | Joined string "nat option" "string option" \<comment> \<open>201, ticket_number, position, queue_type\<close>
  | PermissionDenied \<comment> \<open>403, 'Admin access required'\<close>
  | EmptyQueue \<comment> \<open>404, 'Queue is empty'\<close>
  | Called string string \<comment> \<open>200, ticket_number and full_name\<close>
  | NotInQueue \<comment> \<open>404, 'You are not in the queue'\<close>
  | Left \<comment> \<open>200, 'Successfully left the queue'\<close>
  | Internal \<comment> \<open>500, an exception reached the handler's except clause\<close>

record stats =
  waiting_in_queue :: nat
  completed_today :: nat
  total_users :: nat

subsection \<open>Dates and ticket numbers\<close>

text \<open>SQLite's \<open>date(t)\<close> of a timestamp: the day it falls on (UTC).\<close>

definition date :: "nat \<Rightarrow> nat" where
  "date t = t div 86400"

text \<open>Python's \<open>f"{n:03d}"\<close>: the decimal digits of \<open>n\<close>, padded with zeros on the left to
  at least three characters.\<close>

definition digit_char :: "nat \<Rightarrow> char" where
  "digit_char d = ''0123456789'' ! d"

fun decimal :: "nat \<Rightarrow> string" where
  "decimal n = (if n < 10 then [digit_char n] else decimal (n div 10) @ [digit_char (n mod 10)])"

declare decimal.simps [simp del]

definition format_03d :: "nat \<Rightarrow> string" where
  "format_03d n = replicate (3 - length (decimal n)) (CHR ''0'') @ decimal n"

definition ticket_label :: "nat \<Rightarrow> string" where
  "ticket_label n = ''TICKET-'' @ format_03d n"

text \<open>\<open>generate_ticket_number\<close>: one more than the number of rows that are waiting and were
  inserted today.\<close>

definition waiting_today :: "nat \<Rightarrow> ticket list \<Rightarrow> nat" where
  "waiting_today now q =
     length (filter (\<lambda>t. date (join_time t) = date now \<and> status t = Waiting) q)"

definition generate_ticket_number :: "nat \<Rightarrow> ticket list \<Rightarrow> string" where
  "generate_ticket_number now q = ticket_label (waiting_today now q + 1)"

subsection \<open>Recomputing the positions\<close>

text \<open>
  \<open>update_queue_positions\<close> selects the ids of the waiting rows ordered by \<open>join_time\<close> and
  runs one \<open>UPDATE queue SET position = idx WHERE id = ?\<close> for each, \<open>idx\<close> counting from 1.
  Rows of equal \<open>join_time\<close> are taken in rowid order (\<open>sort_key\<close> is stable).
\<close>

definition set_position :: "nat \<times> nat \<Rightarrow> ticket list \<Rightarrow> ticket list" where
  "set_position p q =
     map (\<lambda>t. if ticket_id t = snd p then t\<lparr>position := Some (fst p)\<rparr> else t) q"

definition waiting_users :: "ticket list \<Rightarrow> ticket list" where
  "waiting_users q = sort_key join_time (filter (\<lambda>t. status t = Waiting) q)"

definition update_queue_positions :: "ticket list \<Rightarrow> ticket list" where
  "update_queue_positions q =
     fold set_position (enumerate 1 (map ticket_id (waiting_users q))) q"

subsection \<open>The endpoints\<close>

text \<open>An integer parameter of a statement is bound as a signed 64-bit value; the sqlite3
  module raises OverflowError on any other, which the handler answers with 500.\<close>

definition int64 :: "int \<Rightarrow> bool" where
  "int64 i \<longleftrightarrow> - (2 ^ 63) \<le> i \<and> i < 2 ^ 63"

definition bindable :: "int option \<Rightarrow> bool" where
  "bindable a = (case a of None \<Rightarrow> True | Some i \<Rightarrow> int64 i)"

text \<open>What \<open>data.get(key, default)\<close> stores for an optional text field.\<close>

definition stored :: "json_text \<Rightarrow> string \<Rightarrow> string option" where
  "stored x d = (case x of Absent \<Rightarrow> Some d | Null \<Rightarrow> None | Text s \<Rightarrow> Some s)"

text \<open>\<open>init_database\<close> creates the tables if they are missing and inserts the default
  administrator, with no phone number and no email; the insertion fails on the UNIQUE
  username when it is there already. \<open>hashed\<close> is the result of bcrypt on the password.\<close>

definition empty_database :: database where
  "empty_database = \<lparr>users = [], queue = [], locked = False\<rparr>"

definition insert_user :: "nat \<Rightarrow> string \<Rightarrow> string \<Rightarrow> string \<Rightarrow> string option
    \<Rightarrow> string option \<Rightarrow> string \<Rightarrow> user list \<Rightarrow> user list option" where
  "insert_user now name hashed full phone mail r us =
     (if name \<in> set (map username us) then None
      else Some (us @ [\<lparr>uid = int (length us) + 1, username = name, password = hashed,
                        full_name = full, phone_number = phone, email = mail, role = r,
                        created_at = now\<rparr>]))"

definition init_database :: "nat \<Rightarrow> string \<Rightarrow> database \<Rightarrow> database" where
  "init_database now hashed db =
     (case insert_user now ''admin'' hashed ''System Admin'' None None ''admin'' (users db) of
        None \<Rightarrow> db
      | Some us \<Rightarrow> db\<lparr>users := us\<rparr>)"

text \<open>
  \<open>/register\<close>. A field that is absent or empty is falsy in Python. \<open>hashed\<close> is what
  \<open>bcrypt.hashpw\<close> returns, \<open>None\<close> when it (or encoding the password) raises: the handler
  answers 500 before it opens a connection. The INSERT raises \<open>database is locked\<close> (500)
  when the write lock is taken; when the username exists it raises IntegrityError, answered
  409 by an \<open>except\<close> clause that leaves the connection open with the write lock.
\<close>

definition falsy :: "string option \<Rightarrow> bool" where
  "falsy x = (case x of None \<Rightarrow> True | Some s \<Rightarrow> s = [])"

definition register :: "nat \<Rightarrow> string option \<Rightarrow> string option \<Rightarrow> string option
    \<Rightarrow> string option \<Rightarrow> json_text \<Rightarrow> json_text \<Rightarrow> database \<Rightarrow> response \<times> database" where
  "register now hashed name pw full phone mail db =
     (if falsy name \<or> falsy pw \<or> falsy full then (InvalidInput, db)
      else case hashed of
        None \<Rightarrow> (Internal, db)
      | Some h \<Rightarrow>
          if locked db then (Internal, db)
          else case insert_user now (the name) h (the full) (stored phone []) (stored mail [])
                      ''user'' (users db) of
            None \<Rightarrow> (UsernameExists, db\<lparr>locked := True\<rparr>)
          | Some us \<Rightarrow> (Registered (int (length us)) (the name), db\<lparr>users := us\<rparr>))"

text \<open>
  \<open>/join_queue\<close>. \<open>user_id\<close> is the JSON field (\<open>None\<close> when absent or null; \<open>0\<close> is falsy
  too); binding it to the first SELECT raises OverflowError outside 64 bits. \<open>queue_type\<close>
  defaults to \<open>'general'\<close> when the key is absent. The INSERT raises \<open>database is locked\<close>
  when the write lock is taken, and violates the UNIQUE constraint on \<open>ticket_number\<close> when
  the generated number is in the table already; both are answered 500 by the \<open>except\<close>
  clause with nothing committed, and after the second the connection stays open with the
  write lock.
\<close>

definition new_ticket :: "nat \<Rightarrow> int \<Rightarrow> string \<Rightarrow> string option \<Rightarrow> ticket list \<Rightarrow> ticket" where
  "new_ticket now u tn qt q =
     \<lparr>ticket_id = length q + 1, user_id = u, ticket_number = tn, queue_type = qt,
      status = Waiting, join_time = now, called_time = None, completed_time = None,
      position = None\<rparr>"

definition join_queue :: "nat \<Rightarrow> int option \<Rightarrow> json_text \<Rightarrow> database
    \<Rightarrow> response \<times> database" where
  "join_queue now uo qto db =
     (case uo of
        None \<Rightarrow> (InvalidInput, db)
      | Some u \<Rightarrow>
          if u = 0 then (InvalidInput, db)
          else if \<not> int64 u then (Internal, db)
          else
            (case find (\<lambda>t. user_id t = u \<and> status t = Waiting) (queue db) of
               Some existing \<Rightarrow>
                 (AlreadyQueued (ticket_number existing) (position existing), db)
             | None \<Rightarrow>
                 let qt = stored qto ''general'';
                     tn = generate_ticket_number now (queue db)
                 in if locked db then (Internal, db)
                    else if tn \<in> set (map ticket_number (queue db))
                    then (Internal, db\<lparr>locked := True\<rparr>)
                    else
                      let q' = update_queue_positions
                                 (queue db @ [new_ticket now u tn qt (queue db)]);
                          db' = db\<lparr>queue := q'\<rparr>
                      in (case find (\<lambda>t. ticket_number t = tn) q' of
                            None \<Rightarrow> (Internal, db')
                          | Some row \<Rightarrow> (Joined tn (position row) qt, db'))))"

text \<open>
  \<open>/call_next\<close>. Binding \<open>admin_id\<close> raises OverflowError outside 64 bits. The caller must
  be a user whose role is \<open>'admin'\<close>. The next person is the first row of
  \<open>queue JOIN users\<close> among the waiting ones in ascending \<open>position\<close> (a NULL position sorts
  first in SQLite, as \<open>None\<close> does here); the UPDATE sets the row to completed and stamps
  its \<open>called_time\<close>, or raises \<open>database is locked\<close>.
\<close>

definition joined_rows :: "database \<Rightarrow> (ticket \<times> user) list" where
  "joined_rows db =
     concat (map (\<lambda>t. map (\<lambda>u. (t, u)) (filter (\<lambda>u. user_id t = uid u) (users db)))
                 (filter (\<lambda>t. status t = Waiting) (queue db)))"

definition complete_ticket :: "nat \<Rightarrow> nat \<Rightarrow> ticket list \<Rightarrow> ticket list" where
  "complete_ticket now i q =
     map (\<lambda>t. if ticket_id t = i then t\<lparr>status := Completed, called_time := Some now\<rparr> else t) q"

definition call_next :: "nat \<Rightarrow> int option \<Rightarrow> database \<Rightarrow> response \<times> database" where
  "call_next now admin_id db =
     (if \<not> bindable admin_id then (Internal, db)
      else
        (case find (\<lambda>u. Some (uid u) = admin_id) (users db) of
           None \<Rightarrow> (PermissionDenied, db)
         | Some admin \<Rightarrow>
             if role admin \<noteq> ''admin'' then (PermissionDenied, db)
             else
               (case sort_key (\<lambda>r. position (fst r)) (joined_rows db) of
                  [] \<Rightarrow> (EmptyQueue, db)
                | next_person # _ \<Rightarrow>
                    if locked db then (Internal, db)
                    else
                      (Called (ticket_number (fst next_person)) (full_name (snd next_person)),
                       db\<lparr>queue := update_queue_positions
                            (complete_ticket now (ticket_id (fst next_person)) (queue db))\<rparr>))))"

text \<open>
  \<open>/leave_queue\<close>. \<open>user_id\<close> is the query parameter, taken as the integer its text
  denotes (\<open>None\<close> when absent or empty; the text \<open>0\<close> is a non-empty string and passes).
  The UPDATE needs the write lock whether or not a row matches, and raises
  \<open>database is locked\<close> when it is taken; otherwise it cancels every waiting row of the user
  and stamps \<open>completed_time\<close>, and \<open>rowcount\<close> is the number of rows it matched.
\<close>

definition cancel_tickets :: "nat \<Rightarrow> int \<Rightarrow> ticket list \<Rightarrow> ticket list" where
  "cancel_tickets now u q =
     map (\<lambda>t. if user_id t = u \<and> status t = Waiting
              then t\<lparr>status := Cancelled, completed_time := Some now\<rparr> else t) q"

definition leave_queue :: "nat \<Rightarrow> int option \<Rightarrow> database \<Rightarrow> response \<times> database" where
  "leave_queue now uo db =
     (case uo of
        None \<Rightarrow> (InvalidInput, db)
      | Some u \<Rightarrow>
          if locked db then (Internal, db)
          else if length (filter (\<lambda>t. user_id t = u \<and> status t = Waiting) (queue db)) = 0
          then (NotInQueue, db)
          else (Left, db\<lparr>queue := update_queue_positions (cancel_tickets now u (queue db))\<rparr>))"

text \<open>\<open>/queue_stats\<close> only reads. \<open>date(completed_time)\<close> of a NULL is NULL, and the
  comparison is then not true.\<close>

definition queue_stats :: "nat \<Rightarrow> database \<Rightarrow> stats" where
  "queue_stats now db =
     \<lparr>waiting_in_queue = length (filter (\<lambda>t. status t = Waiting) (queue db)),
      completed_today =
        length (filter (\<lambda>t. status t = Completed \<and>
                  (case completed_time t of None \<Rightarrow> False | Some c \<Rightarrow> date c = date now))
                (queue db)),
      total_users = length (filter (\<lambda>u. role u \<noteq> ''admin'') (users db))\<rparr>"

subsection \<open>Sequences of requests\<close>

datatype request =
    Register nat "string option" "string option" "string option" "string option"
      json_text json_text
  | JoinQueue nat "int option" json_text
  | CallNext nat "int option"
  | LeaveQueue nat "int option"

fun handle :: "request \<Rightarrow> database \<Rightarrow> response \<times> database" where
  "handle (Register now hashed name pw full phone mail) db =
     register now hashed name pw full phone mail db"
| "handle (JoinQueue now u qt) db = join_queue now u qt db"
| "handle (CallNext now a) db = call_next now a db"
| "handle (LeaveQueue now u) db = leave_queue now u db"

text \<open>What happens to the server: a request is served, or the garbage collector runs and
  closes the connections that were left open, which releases the write lock.\<close>

datatype event = Request request | Collect

fun step :: "event \<Rightarrow> database \<Rightarrow> database" where
  "step (Request r) db = snd (handle r db)"
| "step Collect db = db\<lparr>locked := False\<rparr>"

text \<open>The database after a sequence of events, one after the other.\<close>

fun serve :: "event list \<Rightarrow> database \<Rightarrow> database" where
  "serve [] db = db"
| "serve (e # es) db = serve es (step e db)"

text \<open>The database a fresh installation starts from.\<close>

definition fresh :: "nat \<Rightarrow> string \<Rightarrow> database" where
  "fresh now hashed = init_database now hashed empty_database"

text \<open>An event that takes nobody out of the queue and does not read a clock earlier than
  \<open>t0\<close>: a Register, a garbage collection, or a Join at \<open>t0\<close> or later.\<close>

fun stays_in_line :: "nat \<Rightarrow> event \<Rightarrow> bool" where
  "stays_in_line t0 Collect = True"
| "stays_in_line t0 (Request (Register now hashed name pw full phone mail)) = True"
| "stays_in_line t0 (Request (JoinQueue now u qt)) = (t0 \<le> now)"
| "stays_in_line t0 (Request (CallNext now a)) = False"
| "stays_in_line t0 (Request (LeaveQueue now u)) = False"

subsection \<open>Notions the properties are stated with\<close>




text \<open>What a pass of position updates \<open>(idx, id)\<close> does to one row.\<close>

definition reposition :: "(nat \<times> nat) list \<Rightarrow> ticket \<Rightarrow> ticket" where
  "reposition ps t =
     (case map_of (map prod.swap ps) (ticket_id t) of
        None \<Rightarrow> t
      | Some i \<Rightarrow> t\<lparr>position := Some i\<rparr>)"

text \<open>
  What holds of the queue table after any sequence of requests: the ids count the rows, the
  label of a row is its id formatted, no user has two waiting rows, \<open>user_id\<close> is a
  64-bit integer other than 0, only a cancelled row has a \<open>completed_time\<close>, and the waiting row ranked \<open>k\<close>-th by
  \<open>join_time\<close> has position \<open>k\<close>.
\<close>

definition well_formed :: "ticket list \<Rightarrow> bool" where
  "well_formed q \<longleftrightarrow>
     map ticket_id q = map Suc [0..<length q] \<and>
     map ticket_number q = map (\<lambda>k. ticket_label (Suc k)) [0..<length q] \<and>
     distinct (map user_id (filter (\<lambda>t. status t = Waiting) q)) \<and>
     (\<forall>t\<in>set q. user_id t \<noteq> 0 \<and> int64 (user_id t)) \<and>
     (\<forall>t\<in>set q. status t \<noteq> Cancelled \<longrightarrow> completed_time t = None) \<and>
     map position (waiting_users q) = map (\<lambda>k. Some (Suc k)) [0..<length (waiting_users q)]"

text \<open>
  The positions of the waiting rows are exactly \<open>1..N\<close>, each once, and a row that joined
  strictly earlier has the smaller position.
\<close>

definition positions_contiguous :: "ticket list \<Rightarrow> bool" where
  "positions_contiguous q =
     (let w = filter (\<lambda>t. status t = Waiting) q
      in sort (map position w) = map Some [1..<Suc (length w)] \<and>
         (\<forall>a\<in>set w. \<forall>b\<in>set w. join_time a < join_time b \<longrightarrow> position a < position b))"

subsection \<open>A concrete day\<close>

text \<open>Three users register and join the queue; the database this leaves is written out.\<close>

definition day_one :: "event list" where
  "day_one = map Request
     [Register 1 (Some ''h1'') (Some ''ann'') (Some ''pw'') (Some ''Ann'') Absent Absent,
      Register 2 (Some ''h2'') (Some ''bob'') (Some ''pw'') (Some ''Bob'') Absent Absent,
      Register 3 (Some ''h3'') (Some ''cyd'') (Some ''pw'') (Some ''Cyd'') Absent Absent,
      JoinQueue 10 (Some 2) Absent,
      JoinQueue 11 (Some 3) Absent,
      JoinQueue 12 (Some 4) (Text ''vip'')]"

definition day_one_users :: "user list" where
  "day_one_users =
     [\<lparr>uid = 1, username = ''admin'', password = ''h0'', full_name = ''System Admin'',
       phone_number = None, email = None, role = ''admin'', created_at = 0\<rparr>,
      \<lparr>uid = 2, username = ''ann'', password = ''h1'', full_name = ''Ann'',
       phone_number = Some [], email = Some [], role = ''user'', created_at = 1\<rparr>,
      \<lparr>uid = 3, username = ''bob'', password = ''h2'', full_name = ''Bob'',
       phone_number = Some [], email = Some [], role = ''user'', created_at = 2\<rparr>,
      \<lparr>uid = 4, username = ''cyd'', password = ''h3'', full_name = ''Cyd'',
       phone_number = Some [], email = Some [], role = ''user'', created_at = 3\<rparr>]"

definition waiting_row :: "nat \<Rightarrow> int \<Rightarrow> string \<Rightarrow> string \<Rightarrow> nat \<Rightarrow> nat \<Rightarrow> ticket" where
  "waiting_row i u tn qt jt p =
     \<lparr>ticket_id = i, user_id = u, ticket_number = tn, queue_type = Some qt, status = Waiting,
      join_time = jt, called_time = None, completed_time = None, position = Some p\<rparr>"

definition day_one_queue :: "ticket list" where
  "day_one_queue =
     [waiting_row 1 2 ''TICKET-001'' ''general'' 10 1,
      waiting_row 2 3 ''TICKET-002'' ''general'' 11 2,
      waiting_row 3 4 ''TICKET-003'' ''vip'' 12 3]"

text \<open>The same day before the third Join, and continued: two more users join and the
  administrator calls twice.\<close>

definition two_joined :: "event list" where
  "two_joined = butlast day_one"

definition busy_day :: "event list" where
  "busy_day = day_one @ map Request
     [Register 4 (Some ''h4'') (Some ''dee'') (Some ''pw'') (Some ''Dee'') Absent Absent,
      Register 5 (Some ''h5'') (Some ''eve'') (Some ''pw'') (Some ''Eve'') Absent Absent,
      JoinQueue 13 (Some 5) Absent,
      JoinQueue 14 (Some 6) Absent,
      CallNext 20 (Some 1),
      CallNext 21 (Some 1)]"

text \<open>A Join with a \<open>user_id\<close> that no row of \<open>users\<close> carries, then a registered user
  joins.\<close>

definition stray_join :: "event list" where
  "stray_join = map Request
     [JoinQueue 10 (Some 99) Absent,
      Register 11 (Some ''h1'') (Some ''ann'') (Some ''pw'') (Some ''Ann'') Absent Absent,
      JoinQueue 12 (Some 2) Absent]"

text \<open>The first in line is called and joins again at once: the Join is rejected, and its
  connection stays open.\<close>

definition rejected_join :: "event list" where
  "rejected_join = day_one @ map Request [CallNext 20 (Some 1), JoinQueue 21 (Some 2) Absent]"

text \<open>Two users join while the clock is set back between the two Joins.\<close>

definition two_registered :: "event list" where
  "two_registered = map Request
     [Register 1 (Some ''h1'') (Some ''ann'') (Some ''pw'') (Some ''Ann'') Absent Absent,
      Register 2 (Some ''h2'') (Some ''bob'') (Some ''pw'') (Some ''Bob'') Absent Absent]"

definition clock_set_back :: "event list" where
  "clock_set_back = two_registered @ map Request
     [JoinQueue 50 (Some 2) Absent,
      JoinQueue 40 (Some 3) Absent]"


section \<open>Properties\<close>

subsection \<open>Ticket labels can be read back\<close>








subsection \<open>What recomputing the positions does\<close>

lemma reposition_fields [simp]:
  "ticket_id (reposition ps t) = ticket_id t"
  "user_id (reposition ps t) = user_id t"
  "ticket_number (reposition ps t) = ticket_number t"
  "queue_type (reposition ps t) = queue_type t"
  "status (reposition ps t) = status t"
  "join_time (reposition ps t) = join_time t"
  "called_time (reposition ps t) = called_time t"
  "completed_time (reposition ps t) = completed_time t"
  by (simp_all add: reposition_def split: option.splits)

lemma fold_set_position:
  "distinct (map snd ps) \<Longrightarrow> fold set_position ps q = map (reposition ps) q"
proof (induction ps arbitrary: q)
  case Nil
  show ?case by (simp add: reposition_def)
next
  case (Cons p ps)
  have fresh_key: "map_of (map prod.swap ps) (snd p) = None"
    using Cons.prems by (auto simp: map_of_eq_None_iff image_iff)
  have step: "reposition ps (if ticket_id t = snd p then t\<lparr>position := Some (fst p)\<rparr> else t)
      = reposition (p # ps) t" for t
    using fresh_key by (cases p) (simp add: reposition_def)
  have "fold set_position (p # ps) q = map (reposition ps) (set_position p q)"
    using Cons by simp
  also have "\<dots> = map (reposition (p # ps)) q"
    by (simp add: set_position_def step)
  finally show ?case .
qed

lemma map_of_enumerate:
  "distinct ids \<Longrightarrow> k < length ids \<Longrightarrow>
     map_of (map prod.swap (enumerate n ids)) (ids ! k) = Some (n + k)"
proof (induction ids arbitrary: n k)
  case Nil
  then show ?case by simp
next
  case (Cons a ids)
  show ?case
  proof (cases k)
    case 0
    then show ?thesis by simp
  next
    case (Suc j)
    with Cons.prems have "ids ! j \<noteq> a" by auto
    moreover have "map_of (map prod.swap (enumerate (Suc n) ids)) (ids ! j) = Some (Suc n + j)"
      using Cons.prems Suc by (intro Cons.IH) auto
    ultimately show ?thesis using Suc by simp
  qed
qed

lemma insort_key_map:
  "insort_key f (g x) (map g xs) = map g (insort_key (\<lambda>y. f (g y)) x xs)"
  by (induction xs) simp_all

lemma sort_key_map: "sort_key f (map g xs) = map g (sort_key (\<lambda>y. f (g y)) xs)"
  by (induction xs) (simp_all add: insort_key_map)

lemma waiting_users_map:
  assumes "\<And>t. status (g t) = status t" "\<And>t. join_time (g t) = join_time t"
  shows "waiting_users (map g q) = map g (waiting_users q)"
proof -
  show ?thesis
    by (simp add: waiting_users_def filter_map sort_key_map comp_def assms)
qed

lemma distinct_waiting_ids:
  assumes "distinct (map ticket_id q)"
  shows "distinct (map ticket_id (waiting_users q))"
proof -
  have "distinct (map ticket_id (filter (\<lambda>t. status t = Waiting) q))"
    using assms by (rule distinct_map_filter)
  then show ?thesis
    by (simp add: waiting_users_def distinct_map)
qed

lemma update_queue_positions_map:
  assumes "distinct (map ticket_id q)"
  shows "update_queue_positions q
    = map (reposition (enumerate 1 (map ticket_id (waiting_users q)))) q"
  unfolding update_queue_positions_def
  by (rule fold_set_position) (simp add: distinct_waiting_ids [OF assms])

text \<open>After the update the row ranked \<open>k\<close>-th by join time carries position \<open>k\<close>.\<close>

lemma positions_of_waiting_users:
  assumes "distinct (map ticket_id q)"
  shows "map position (waiting_users (update_queue_positions q))
    = map (\<lambda>k. Some (Suc k)) [0..<length (waiting_users q)]"
proof -
  let ?ws = "waiting_users q"
  let ?ps = "enumerate 1 (map ticket_id ?ws)"
  have d: "distinct (map ticket_id ?ws)" by (rule distinct_waiting_ids [OF assms])
  have "waiting_users (update_queue_positions q) = map (reposition ?ps) ?ws"
    by (simp add: update_queue_positions_map [OF assms] waiting_users_map)
  moreover have "map position (map (reposition ?ps) ?ws) = map (\<lambda>k. Some (Suc k)) [0..<length ?ws]"
  proof (rule nth_equalityI)
    show "length (map position (map (reposition ?ps) ?ws)) = length (map (\<lambda>k. Some (Suc k)) [0..<length ?ws])"
      by simp
  next
    fix k assume "k < length (map position (map (reposition ?ps) ?ws))"
    then have k: "k < length ?ws" by simp
    then have "map_of (map prod.swap ?ps) (map ticket_id ?ws ! k) = Some (1 + k)"
      using d by (intro map_of_enumerate) simp_all
    then have "position (reposition ?ps (?ws ! k)) = Some (1 + k)"
      using k by (simp add: reposition_def)
    then show "map position (map (reposition ?ps) ?ws) ! k = map (\<lambda>k. Some (Suc k)) [0..<length ?ws] ! k"
      using k by simp
  qed
  ultimately show ?thesis by simp
qed

lemma map_update_queue_positions:
  assumes "\<And>t p. f (t\<lparr>position := p\<rparr>) = f t"
  shows "map f (update_queue_positions q) = map f q"
proof -
  have "map f (fold set_position ps q) = map f q" for ps
  proof (induction ps arbitrary: q)
    case Nil
    show ?case by simp
  next
    case (Cons p ps)
    have "map f (set_position p q) = map f q"
      by (simp add: set_position_def assms)
    with Cons show ?case by simp
  qed
  then show ?thesis by (simp add: update_queue_positions_def)
qed

lemma length_update_queue_positions [simp]:
  "length (update_queue_positions q) = length q"
  using map_update_queue_positions [of ticket_id q, THEN arg_cong, of length] by simp

subsection \<open>How an event changes the queue table\<close>

lemma next_person_waiting:
  assumes "sort_key (\<lambda>r. position (fst r)) (joined_rows db) = np # rest"
  shows "fst np \<in> set (queue db)" "status (fst np) = Waiting" "snd np \<in> set (users db)"
    "user_id (fst np) = uid (snd np)"
proof -
  have "np \<in> set (sort_key (\<lambda>r. position (fst r)) (joined_rows db))"
    using assms by simp
  then have "np \<in> set (joined_rows db)" by simp
  then show "fst np \<in> set (queue db)" "status (fst np) = Waiting" "snd np \<in> set (users db)"
    "user_id (fst np) = uid (snd np)"
    by (auto simp: joined_rows_def)
qed

lemma find_inserted:
  "find (\<lambda>t. ticket_number t = tn)
     (update_queue_positions (q @ [new_ticket now u tn qt q])) \<noteq> None"
proof -
  have "tn \<in> set (map ticket_number (update_queue_positions (q @ [new_ticket now u tn qt q])))"
    by (simp add: map_update_queue_positions new_ticket_def)
  then show ?thesis
    by (auto simp: find_None_iff)
qed

lemma join_queue_Joined:
  fixes qto :: json_text
  assumes "u \<noteq> 0"
    and "find (\<lambda>t. user_id t = u \<and> status t = Waiting) (queue db) = None"
    and "generate_ticket_number now (queue db) \<notin> set (map ticket_number (queue db))"
    and "int64 u" and "\<not> locked db"
  defines "tn \<equiv> generate_ticket_number now (queue db)"
    and "qt \<equiv> stored qto ''general''"
  defines "q' \<equiv> update_queue_positions (queue db @ [new_ticket now u tn qt (queue db)])"
  shows "\<exists>row. find (\<lambda>t. ticket_number t = tn) q' = Some row \<and>
    join_queue now (Some u) qto db = (Joined tn (position row) qt, db\<lparr>queue := q'\<rparr>)"
proof -
  obtain row where row: "find (\<lambda>t. ticket_number t = tn) q' = Some row"
    using find_inserted [of tn "queue db" now u qt] unfolding q'_def by blast
  have "join_queue now (Some u) qto db = (Joined tn (position row) qt, db\<lparr>queue := q'\<rparr>)"
    using assms(1-5) row unfolding join_queue_def tn_def qt_def q'_def
    by (simp add: Let_def)
  with row show ?thesis by blast
qed

text \<open>The four ways an event can leave the queue table.\<close>

lemma step_cases [case_names Same Join Call Leave]:
  obtains
    (Same) "queue (step e db) = queue db"
  | (Join) now u qt where
      "queue (step e db) =
         update_queue_positions (queue db @
           [new_ticket now u (generate_ticket_number now (queue db)) (stored qt ''general'')
              (queue db)])"
      "u \<noteq> 0" "int64 u" "\<forall>t\<in>set (queue db). \<not> (user_id t = u \<and> status t = Waiting)"
      "generate_ticket_number now (queue db) \<notin> set (map ticket_number (queue db))"
      "e = Request (JoinQueue now (Some u) qt)"
  | (Call) now t a where
      "queue (step e db) =
         update_queue_positions (complete_ticket now (ticket_id t) (queue db))"
      "t \<in> set (queue db)" "status t = Waiting" "e = Request (CallNext now a)"
  | (Leave) now u where
      "queue (step e db) = update_queue_positions (cancel_tickets now u (queue db))"
      "e = Request (LeaveQueue now (Some u))"
proof (cases e)
  case Collect
  then have "queue (step e db) = queue db" by simp
  then show ?thesis by (rule Same)
next
  case (Request r)
  show ?thesis
  proof (cases r)
    case (Register now hashed name pw full phone mail)
    then have "queue (step e db) = queue db"
      using Request by (simp add: register_def split: option.splits)
    then show ?thesis by (rule Same)
  next
    case (JoinQueue now uo qto)
    show ?thesis
    proof (cases "\<exists>u. uo = Some u \<and> u \<noteq> 0 \<and> int64 u \<and> \<not> locked db \<and>
        find (\<lambda>t. user_id t = u \<and> status t = Waiting) (queue db) = None \<and>
        generate_ticket_number now (queue db) \<notin> set (map ticket_number (queue db))")
      case False
      then have "queue (step e db) = queue db"
        using JoinQueue Request
        by (auto simp: join_queue_def Let_def split: option.splits if_splits)
      then show ?thesis by (rule Same)
    next
      case True
      then obtain u where u: "uo = Some u" "u \<noteq> 0" "int64 u" "\<not> locked db"
        and nf: "find (\<lambda>t. user_id t = u \<and> status t = Waiting) (queue db) = None"
        and fresh_tn: "generate_ticket_number now (queue db) \<notin> set (map ticket_number (queue db))"
        by blast
      have "queue (step e db) =
           update_queue_positions (queue db @
             [new_ticket now u (generate_ticket_number now (queue db))
                (stored qto ''general'') (queue db)])"
        using join_queue_Joined [OF u(2) nf fresh_tn u(3,4), of qto] JoinQueue Request u(1) by auto
      moreover have "\<forall>t\<in>set (queue db). \<not> (user_id t = u \<and> status t = Waiting)"
        using nf by (simp add: find_None_iff)
      ultimately show ?thesis using u fresh_tn JoinQueue Request by (intro Join) simp_all
    qed
  next
    case (CallNext now a)
    show ?thesis
    proof (cases "\<exists>tn n. fst (handle r db) = Called tn n")
      case False
      then have "queue (step e db) = queue db"
        using CallNext Request
        by (auto simp: call_next_def split: option.splits if_splits list.splits)
      then show ?thesis by (rule Same)
    next
      case True
      then obtain np rest where np: "sort_key (\<lambda>r. position (fst r)) (joined_rows db) = np # rest"
        and q': "queue (step e db) =
           update_queue_positions (complete_ticket now (ticket_id (fst np)) (queue db))"
        using CallNext Request
        by (auto simp: call_next_def split: option.splits if_splits list.splits)
      show ?thesis
        using q' next_person_waiting(1,2) [OF np] CallNext Request by (intro Call) simp_all
    qed
  next
    case (LeaveQueue now uo)
    show ?thesis
    proof (cases "fst (handle r db) = Left")
      case False
      then have "queue (step e db) = queue db"
        using LeaveQueue Request by (auto simp: leave_queue_def split: option.splits if_splits)
      then show ?thesis by (rule Same)
    next
      case True
      then obtain u where u: "uo = Some u" "\<not> locked db"
          "filter (\<lambda>t. user_id t = u \<and> status t = Waiting) (queue db) \<noteq> []"
        using LeaveQueue by (auto simp: leave_queue_def split: option.splits if_splits)
      then have "queue (step e db) = update_queue_positions (cancel_tickets now u (queue db))"
        using LeaveQueue Request by (simp add: leave_queue_def)
      then show ?thesis using u(1) LeaveQueue Request by (intro Leave) simp_all
    qed
  qed
qed

subsection \<open>Every event keeps the table well formed\<close>

lemma well_formed_distinct_ids: "well_formed q \<Longrightarrow> distinct (map ticket_id q)"
  by (simp add: well_formed_def distinct_map)

lemma waiting_users_update:
  "distinct (map ticket_id q) \<Longrightarrow>
     length (waiting_users (update_queue_positions q)) = length (waiting_users q)"
  by (simp add: update_queue_positions_map waiting_users_map)

lemma filter_update_queue_positions:
  assumes "\<And>t p. f (t\<lparr>position := p\<rparr>) = f t"
  shows "map f (filter (\<lambda>t. status t = Waiting) (update_queue_positions q))
    = map f (filter (\<lambda>t. status t = Waiting) q)"
proof -
  have "map (\<lambda>t. (status t, f t)) (update_queue_positions q) = map (\<lambda>t. (status t, f t)) q"
    by (rule map_update_queue_positions) (simp add: assms)
  then have "map snd (filter (\<lambda>p. fst p = Waiting) (map (\<lambda>t. (status t, f t)) (update_queue_positions q)))
    = map snd (filter (\<lambda>p. fst p = Waiting) (map (\<lambda>t. (status t, f t)) q))"
    by simp
  then show ?thesis
    by (simp add: filter_map comp_def)
qed

lemma set_update_queue_positions:
  assumes "\<And>t p. f (t\<lparr>position := p\<rparr>) = f t"
  shows "f ` set (update_queue_positions q) = f ` set q"
  using map_update_queue_positions [of f q, OF assms, THEN arg_cong, of set] by simp

text \<open>Recomputing the positions keeps a table well formed once the other columns are.\<close>

lemma well_formed_update:
  assumes "map ticket_id q = map Suc [0..<length q]"
    and "map ticket_number q = map (\<lambda>k. ticket_label (Suc k)) [0..<length q]"
    and "distinct (map user_id (filter (\<lambda>t. status t = Waiting) q))"
    and "\<forall>t\<in>set q. user_id t \<noteq> 0 \<and> int64 (user_id t)"
    and "\<forall>t\<in>set q. status t \<noteq> Cancelled \<longrightarrow> completed_time t = None"
  shows "well_formed (update_queue_positions q)"
proof -
  let ?q = "update_queue_positions q"
  have d: "distinct (map ticket_id q)" by (simp add: assms(1) distinct_map)
  have "map ticket_id ?q = map Suc [0..<length ?q]"
    by (simp add: map_update_queue_positions assms(1))
  moreover have "map ticket_number ?q = map (\<lambda>k. ticket_label (Suc k)) [0..<length ?q]"
    by (simp add: map_update_queue_positions assms(2))
  moreover have "distinct (map user_id (filter (\<lambda>t. status t = Waiting) ?q))"
    by (simp add: filter_update_queue_positions assms(3))
  moreover have "\<forall>t\<in>set ?q. user_id t \<noteq> 0 \<and> int64 (user_id t)"
  proof -
    have "user_id ` set ?q = user_id ` set q"
      by (rule set_update_queue_positions) simp
    with assms(4) show ?thesis by (metis imageE imageI)
  qed
  moreover have "\<forall>t\<in>set ?q. status t \<noteq> Cancelled \<longrightarrow> completed_time t = None"
  proof -
    have "(\<lambda>t. (status t, completed_time t)) ` set ?q = (\<lambda>t. (status t, completed_time t)) ` set q"
      by (rule set_update_queue_positions) simp
    with assms(5) show ?thesis by (smt (verit, best) imageE imageI prod.inject)
  qed
  moreover have "map position (waiting_users ?q)
      = map (\<lambda>k. Some (Suc k)) [0..<length (waiting_users ?q)]"
    by (simp add: positions_of_waiting_users [OF d] waiting_users_update [OF d])
  ultimately show ?thesis
    unfolding well_formed_def by blast
qed

lemma waiting_today_le: "waiting_today now q \<le> length q"
  by (simp add: waiting_today_def)

text \<open>In a well-formed table the numbers \<open>1..length q\<close> are taken, so an INSERT succeeds
  only with the next one.\<close>

lemma fresh_ticket_number:
  assumes "map ticket_number q = map (\<lambda>k. ticket_label (Suc k)) [0..<length q]"
    and "generate_ticket_number now q \<notin> set (map ticket_number q)"
  shows "waiting_today now q = length q"
    and "generate_ticket_number now q = ticket_label (Suc (length q))"
proof -
  let ?w = "waiting_today now q"
  have "ticket_label (Suc ?w) \<notin> (\<lambda>k. ticket_label (Suc k)) ` {0..<length q}"
    using assms by (simp add: generate_ticket_number_def)
  then have "?w \<notin> {0..<length q}" by blast
  then show "?w = length q"
    using waiting_today_le [of now q] by simp
  then show "generate_ticket_number now q = ticket_label (Suc (length q))"
    by (simp add: generate_ticket_number_def)
qed

lemma well_formed_join:
  assumes wf: "well_formed q" and "u \<noteq> 0" and "int64 u"
    and nw: "\<forall>t\<in>set q. \<not> (user_id t = u \<and> status t = Waiting)"
    and tn: "generate_ticket_number now q \<notin> set (map ticket_number q)"
  shows "well_formed (update_queue_positions
           (q @ [new_ticket now u (generate_ticket_number now q) qt q]))"
proof (rule well_formed_update)
  let ?n = "new_ticket now u (generate_ticket_number now q) qt q"
  show "map ticket_id (q @ [?n]) = map Suc [0..<length (q @ [?n])]"
    using wf by (simp add: well_formed_def new_ticket_def)
  have "map ticket_number q = map (\<lambda>k. ticket_label (Suc k)) [0..<length q]"
    using wf by (simp add: well_formed_def)
  then show "map ticket_number (q @ [?n]) = map (\<lambda>k. ticket_label (Suc k)) [0..<length (q @ [?n])]"
    using fresh_ticket_number(2) [OF _ tn] by (simp add: new_ticket_def)
  have "u \<notin> set (map user_id (filter (\<lambda>t. status t = Waiting) q))"
    using nw by auto
  then show "distinct (map user_id (filter (\<lambda>t. status t = Waiting) (q @ [?n])))"
    using wf by (simp add: well_formed_def new_ticket_def)
  show "\<forall>t\<in>set (q @ [?n]). user_id t \<noteq> 0 \<and> int64 (user_id t)"
    using wf \<open>u \<noteq> 0\<close> \<open>int64 u\<close> by (simp add: well_formed_def new_ticket_def)
  show "\<forall>t\<in>set (q @ [?n]). status t \<noteq> Cancelled \<longrightarrow> completed_time t = None"
    using wf by (simp add: well_formed_def new_ticket_def)
qed

lemma waiting_after_complete:
  "filter (\<lambda>t. status t = Waiting) (complete_ticket now i q)
     = filter (\<lambda>t. ticket_id t \<noteq> i) (filter (\<lambda>t. status t = Waiting) q)"
  by (induction q) (simp_all add: complete_ticket_def)

lemma waiting_after_cancel:
  "filter (\<lambda>t. status t = Waiting) (cancel_tickets now u q)
     = filter (\<lambda>t. user_id t \<noteq> u) (filter (\<lambda>t. status t = Waiting) q)"
  by (induction q) (simp_all add: cancel_tickets_def)

lemma same_id_same_row:
  assumes "distinct (map ticket_id q)" "a \<in> set q" "b \<in> set q" "ticket_id a = ticket_id b"
  shows "a = b"
  using assms by (meson distinct_map inj_onD)

lemma well_formed_complete:
  assumes wf: "well_formed q" and t: "t \<in> set q" "status t = Waiting"
  shows "well_formed (update_queue_positions (complete_ticket now (ticket_id t) q))"
proof (rule well_formed_update)
  let ?q = "complete_ticket now (ticket_id t) q"
  have len: "length ?q = length q" by (simp add: complete_ticket_def)
  have "map ticket_id ?q = map ticket_id q" by (auto simp: complete_ticket_def)
  then show "map ticket_id ?q = map Suc [0..<length ?q]"
    using wf len by (simp add: well_formed_def)
  have "map ticket_number ?q = map ticket_number q" by (auto simp: complete_ticket_def)
  then show "map ticket_number ?q = map (\<lambda>k. ticket_label (Suc k)) [0..<length ?q]"
    using wf len by (simp add: well_formed_def)
  have "distinct (map user_id (filter (\<lambda>t. status t = Waiting) q))"
    using wf by (simp add: well_formed_def)
  then show "distinct (map user_id (filter (\<lambda>t. status t = Waiting) ?q))"
    unfolding waiting_after_complete by (rule distinct_map_filter)
  show "\<forall>t\<in>set ?q. user_id t \<noteq> 0 \<and> int64 (user_id t)"
    using wf by (auto simp: well_formed_def complete_ticket_def)
  show "\<forall>r\<in>set ?q. status r \<noteq> Cancelled \<longrightarrow> completed_time r = None"
  proof
    fix r assume "r \<in> set ?q"
    then obtain r0 where r0: "r0 \<in> set q"
      and r: "r = (if ticket_id r0 = ticket_id t
                   then r0\<lparr>status := Completed, called_time := Some now\<rparr> else r0)"
      by (auto simp: complete_ticket_def)
    show "status r \<noteq> Cancelled \<longrightarrow> completed_time r = None"
    proof (cases "ticket_id r0 = ticket_id t")
      case True
      then have "r0 = t"
        using same_id_same_row [OF well_formed_distinct_ids [OF wf] r0 t(1)] by simp
      then have "completed_time r0 = None"
        using wf t by (simp add: well_formed_def)
      then show ?thesis using r by simp
    next
      case False
      then show ?thesis using r r0 wf by (simp add: well_formed_def)
    qed
  qed
qed

lemma well_formed_cancel:
  assumes wf: "well_formed q"
  shows "well_formed (update_queue_positions (cancel_tickets now u q))"
proof (rule well_formed_update)
  let ?q = "cancel_tickets now u q"
  have len: "length ?q = length q" by (simp add: cancel_tickets_def)
  have "map ticket_id ?q = map ticket_id q" by (auto simp: cancel_tickets_def)
  then show "map ticket_id ?q = map Suc [0..<length ?q]"
    using wf len by (simp add: well_formed_def)
  have "map ticket_number ?q = map ticket_number q" by (auto simp: cancel_tickets_def)
  then show "map ticket_number ?q = map (\<lambda>k. ticket_label (Suc k)) [0..<length ?q]"
    using wf len by (simp add: well_formed_def)
  have "distinct (map user_id (filter (\<lambda>t. status t = Waiting) q))"
    using wf by (simp add: well_formed_def)
  then show "distinct (map user_id (filter (\<lambda>t. status t = Waiting) ?q))"
    unfolding waiting_after_cancel by (rule distinct_map_filter)
  show "\<forall>t\<in>set ?q. user_id t \<noteq> 0 \<and> int64 (user_id t)"
    using wf by (auto simp: well_formed_def cancel_tickets_def)
  show "\<forall>r\<in>set ?q. status r \<noteq> Cancelled \<longrightarrow> completed_time r = None"
    using wf by (auto simp: well_formed_def cancel_tickets_def)
qed

lemma well_formed_step:
  assumes "well_formed (queue db)"
  shows "well_formed (queue (step e db))"
proof (cases e db rule: step_cases)
  case Same
  with assms show ?thesis by simp
next
  case (Join now u qt)
  then show ?thesis using well_formed_join [OF assms] by simp
next
  case (Call now t a)
  then show ?thesis using well_formed_complete [OF assms] by simp
next
  case (Leave now u)
  then show ?thesis using well_formed_cancel [OF assms] by simp
qed

lemma well_formed_serve:
  "well_formed (queue db) \<Longrightarrow> well_formed (queue (serve es db))"
  by (induction es arbitrary: db) (simp_all add: well_formed_step)

lemma queue_fresh: "queue (fresh t h) = []"
  by (simp add: fresh_def init_database_def empty_database_def insert_user_def)

lemma well_formed_reachable: "well_formed (queue (serve es (fresh t h)))"
  by (rule well_formed_serve) (simp add: queue_fresh well_formed_def waiting_users_def)

subsection \<open>The concrete day, evaluated\<close>

lemmas run_defs =
  fresh_def init_database_def insert_user_def empty_database_def register_def falsy_def
  join_queue_def call_next_def leave_queue_def queue_stats_def generate_ticket_number_def
  waiting_today_def ticket_label_def format_03d_def decimal.simps digit_char_def new_ticket_def
  update_queue_positions_def waiting_users_def set_position_def joined_rows_def
  complete_ticket_def cancel_tickets_def date_def Let_def numeral_3_eq_3 int64_def
  bindable_def stored_def

lemma serve_day_one:
  "serve day_one (fresh 0 ''h0'')
     = \<lparr>users = day_one_users, queue = day_one_queue, locked = False\<rparr>"
  by (simp add: day_one_def day_one_users_def day_one_queue_def waiting_row_def run_defs)

lemma serve_two_joined:
  "serve two_joined (fresh 0 ''h0'')
     = \<lparr>users = day_one_users, queue = take 2 day_one_queue, locked = False\<rparr>"
  by (simp add: two_joined_def day_one_def day_one_users_def day_one_queue_def waiting_row_def
      run_defs)

section \<open>The claims\<close>

subsection \<open>Facts the claims share\<close>

lemma ranked_positions_contiguous:
  assumes "map position (waiting_users q) = map (\<lambda>k. Some (Suc k)) [0..<length (waiting_users q)]"
  shows "positions_contiguous q"
proof -
  let ?w = "filter (\<lambda>t. status t = Waiting) q"
  let ?ws = "waiting_users q"
  have ws: "?ws = sort_key join_time ?w" by (simp add: waiting_users_def)
  have len: "length ?ws = length ?w" by (simp add: ws)
  have target: "map (\<lambda>k. Some (Suc k)) [0..<length ?w] = map Some [1..<Suc (length ?w)]"
    by (simp add: map_Suc_upt [symmetric] del: upt_Suc)
  have "mset (map position ?ws) = mset (map position ?w)"
    by (simp add: ws)
  moreover have "sorted (map position ?ws)"
    unfolding assms by (simp add: sorted_map sorted_wrt_iff_nth_less)
  ultimately have "sort (map position ?w) = map position ?ws"
    by (metis properties_for_sort)
  then have first: "sort (map position ?w) = map Some [1..<Suc (length ?w)]"
    using assms len target by simp
  have second: "position a < position b"
    if a: "a \<in> set ?w" and b: "b \<in> set ?w" and lt: "join_time a < join_time b" for a b
  proof -
    from a b obtain i j where i: "i < length ?ws" "?ws ! i = a" and j: "j < length ?ws" "?ws ! j = b"
      unfolding ws by (metis in_set_conv_nth set_sort)
    have "sorted (map join_time ?ws)" by (simp add: ws)
    then have "j \<le> i \<Longrightarrow> join_time b \<le> join_time a"
      using sorted_nth_mono [of "map join_time ?ws" j i] i j by simp
    with lt have "i < j" by force
    moreover have "position a = Some (Suc i)" "position b = Some (Suc j)"
      using arg_cong [OF assms, of "\<lambda>l. l ! i"] arg_cong [OF assms, of "\<lambda>l. l ! j"] i j
      by simp_all
    ultimately show ?thesis by simp
  qed
  show ?thesis
    unfolding positions_contiguous_def Let_def using first second by blast
qed

lemma well_formed_positions: "well_formed q \<Longrightarrow> positions_contiguous q"
  by (rule ranked_positions_contiguous) (simp add: well_formed_def)


lemma waiting_row_of_user:
  assumes "well_formed q" "e \<in> set q" "status e = Waiting"
  shows "find (\<lambda>t. user_id t = user_id e \<and> status t = Waiting) q = Some e"
proof -
  let ?w = "filter (\<lambda>t. status t = Waiting) q"
  have inj: "inj_on user_id (set ?w)"
    using assms(1) by (simp add: well_formed_def distinct_map)
  obtain e' where e': "find (\<lambda>t. user_id t = user_id e \<and> status t = Waiting) q = Some e'"
    using assms(2,3) by (cases "find (\<lambda>t. user_id t = user_id e \<and> status t = Waiting) q")
      (auto simp: find_None_iff)
  then have "e' \<in> set ?w" "user_id e' = user_id e"
    by (auto simp: find_Some_iff)
  moreover have "e \<in> set ?w" using assms(2,3) by simp
  ultimately have "e' = e" using inj by (meson inj_onD)
  with e' show ?thesis by simp
qed

lemma one_waiting_row:
  assumes "well_formed q"
  shows "length (filter (\<lambda>e. user_id e = u \<and> status e = Waiting) q) \<le> 1"
proof -
  let ?w = "filter (\<lambda>t. status t = Waiting) q"
  have d: "distinct (map user_id ?w)" using assms by (simp add: well_formed_def)
  have "filter (\<lambda>e. user_id e = u \<and> status e = Waiting) q = filter (\<lambda>e. user_id e = u) ?w"
    by (simp add: conj_commute)
  then have "length (filter (\<lambda>e. user_id e = u \<and> status e = Waiting) q)
      = length (filter (\<lambda>x. x = u) (map user_id ?w))"
    by (simp add: filter_map comp_def)
  also have "\<dots> = card ({x. x = u} \<inter> set (map user_id ?w))"
    using d by (rule distinct_length_filter)
  also have "\<dots> \<le> card {u}"
    by (intro card_mono) auto
  finally show ?thesis by simp
qed

lemma nth_update_queue_positions:
  assumes "\<And>t p. f (t\<lparr>position := p\<rparr>) = f t" "i < length q"
  shows "f (update_queue_positions q ! i) = f (q ! i)"
  using map_update_queue_positions [of f q, OF assms(1), THEN arg_cong, of "\<lambda>l. l ! i"] assms(2)
  by simp


lemma sort_key_head_least:
  assumes "sort_key f xs = y # ys"
  shows "y \<in> set xs" "\<forall>x\<in>set xs. f y \<le> f x"
proof -
  have "set (sort_key f xs) = set xs" by simp
  then show "y \<in> set xs" unfolding assms by auto
  have "sorted (map f (sort_key f xs))" by simp
  then have "\<forall>x\<in>set ys. f y \<le> f x" unfolding assms by simp
  moreover have "set xs = insert y (set ys)"
    using \<open>set (sort_key f xs) = set xs\<close> unfolding assms by simp
  ultimately show "\<forall>x\<in>set xs. f y \<le> f x" by simp
qed

lemma waiting_positions:
  assumes "positions_contiguous q" "x \<in> set q" "status x = Waiting"
  shows "\<exists>k. position x = Some k \<and> 1 \<le> k"
proof -
  let ?w = "filter (\<lambda>t. status t = Waiting) q"
  have "sort (map position ?w) = map Some [1..<Suc (length ?w)]"
    using assms(1) by (simp add: positions_contiguous_def Let_def del: upt_Suc)
  then have "set (sort (map position ?w)) = set (map Some [1..<Suc (length ?w)])"
    by (rule arg_cong)
  then have "position ` set ?w = Some ` {1..<Suc (length ?w)}"
    by (simp del: upt_Suc)
  moreover have "position x \<in> position ` set ?w" using assms(2,3) by simp
  ultimately show ?thesis by auto
qed

lemma first_position_taken:
  assumes "positions_contiguous q" "x \<in> set q" "status x = Waiting"
  shows "\<exists>e\<in>set q. status e = Waiting \<and> position e = Some 1"
proof -
  let ?w = "filter (\<lambda>t. status t = Waiting) q"
  have "x \<in> set ?w" using assms(2,3) by simp
  then have "0 < length ?w" by (cases ?w) auto
  have "sort (map position ?w) = map Some [1..<Suc (length ?w)]"
    using assms(1) by (simp add: positions_contiguous_def Let_def del: upt_Suc)
  then have "set (sort (map position ?w)) = set (map Some [1..<Suc (length ?w)])"
    by (rule arg_cong)
  then have "position ` set ?w = Some ` {1..<Suc (length ?w)}"
    by (simp del: upt_Suc)
  moreover have "Some 1 \<in> Some ` {1..<Suc (length ?w)}"
    using \<open>0 < length ?w\<close> by auto
  ultimately have "Some 1 \<in> position ` set ?w" by simp
  then show ?thesis by auto
qed

text \<open>One event: a row keeps its place and its identity, and a row that is not waiting
  keeps its status.\<close>

lemma status_step:
  fixes e :: event
  assumes wf: "well_formed (queue db)" and i: "i < length (queue db)"
  defines "q' \<equiv> queue (step e db)"
  shows "i < length q' \<and> ticket_id (q' ! i) = ticket_id (queue db ! i) \<and>
         (status (queue db ! i) \<noteq> Waiting \<longrightarrow> status (q' ! i) = status (queue db ! i))"
proof (cases e db rule: step_cases)
  case Same
  then show ?thesis using i by (simp add: q'_def)
next
  case (Join now u qt)
  let ?n = "new_ticket now u (generate_ticket_number now (queue db)) (stored qt ''general'')
              (queue db)"
  have "i < length (queue db @ [?n])" using i by simp
  then have "ticket_id (q' ! i) = ticket_id ((queue db @ [?n]) ! i)"
    "status (q' ! i) = status ((queue db @ [?n]) ! i)"
    unfolding q'_def Join(1) by (simp_all add: nth_update_queue_positions)
  then show ?thesis using i by (simp add: q'_def Join(1) nth_append)
next
  case (Call now t a)
  let ?c = "complete_ticket now (ticket_id t) (queue db)"
  have len: "i < length ?c" using i by (simp add: complete_ticket_def)
  then have eq: "ticket_id (q' ! i) = ticket_id (?c ! i)" "status (q' ! i) = status (?c ! i)"
    unfolding q'_def Call(1) by (simp_all add: nth_update_queue_positions)
  have "ticket_id (queue db ! i) \<noteq> ticket_id t" if "status (queue db ! i) \<noteq> Waiting"
  proof
    assume "ticket_id (queue db ! i) = ticket_id t"
    then have "queue db ! i = t"
      using same_id_same_row [OF well_formed_distinct_ids [OF wf] _ Call(2)] i by simp
    with that Call(3) show False by simp
  qed
  then show ?thesis
    using eq i len by (auto simp: q'_def Call(1) complete_ticket_def)
next
  case (Leave now u)
  let ?c = "cancel_tickets now u (queue db)"
  have len: "i < length ?c" using i by (simp add: cancel_tickets_def)
  then have eq: "ticket_id (q' ! i) = ticket_id (?c ! i)" "status (q' ! i) = status (?c ! i)"
    unfolding q'_def Leave(1) by (simp_all add: nth_update_queue_positions)
  then show ?thesis
    using i len by (auto simp: q'_def Leave(1) cancel_tickets_def)
qed

lemma status_steps:
  assumes "well_formed (queue db)" "i < length (queue db)"
  shows "i < length (queue (serve rs db)) \<and>
         ticket_id (queue (serve rs db) ! i) = ticket_id (queue db ! i) \<and>
         (status (queue db ! i) \<noteq> Waiting \<longrightarrow>
            status (queue (serve rs db) ! i) = status (queue db ! i))"
  using assms
proof (induction rs arbitrary: db)
  case Nil
  then show ?case by simp
next
  case (Cons r rs)
  let ?db = "step r db"
  have step: "i < length (queue ?db)" "ticket_id (queue ?db ! i) = ticket_id (queue db ! i)"
    "status (queue db ! i) \<noteq> Waiting \<longrightarrow> status (queue ?db ! i) = status (queue db ! i)"
    using status_step [OF Cons.prems, of r] by simp_all
  have wf: "well_formed (queue ?db)" by (rule well_formed_step [OF Cons.prems(1)])
  show ?case
    using Cons.IH [OF wf step(1)] step by auto
qed

subsection \<open>C1: contiguous positions\<close>

text \<open>
  C1. After any sequence of requests served by a fresh installation, the positions of the
  waiting rows are exactly \<open>1..N\<close> for the \<open>N\<close> waiting rows, without gap or duplicate,
  and a row that joined earlier has the smaller position.
\<close>

theorem positions_contiguous_after_requests:
  "positions_contiguous (queue (serve rs (fresh t h)))"
  using well_formed_reachable [of rs t h]
  by (intro ranked_positions_contiguous) (simp add: well_formed_def)

theorem positions_contiguous_witness:
  "positions_contiguous (queue (serve day_one (fresh 0 ''h0''))) \<and>
   map (\<lambda>t. (status t, join_time t, position t)) (queue (serve day_one (fresh 0 ''h0'')))
     = [(Waiting, 10, Some 1), (Waiting, 11, Some 2), (Waiting, 12, Some 3)]"
  using positions_contiguous_after_requests [of day_one 0 "''h0''"]
  by (simp add: serve_day_one day_one_queue_def waiting_row_def)

subsection \<open>C2: ticket numbers of a day\<close>



subsection \<open>C3: the statistics\<close>

text \<open>
  No request ever writes \<open>completed_time\<close> on a completed row (CallNext stamps
  \<open>called_time\<close>), so the count of rows completed today is 0 whatever was served.
\<close>

lemma completed_today_zero:
  "completed_today (queue_stats now (serve rs (fresh t h))) = 0"
proof -
  have "well_formed (queue (serve rs (fresh t h)))" by (rule well_formed_reachable)
  then have "\<forall>x\<in>set (queue (serve rs (fresh t h))). status x = Completed \<longrightarrow> completed_time x = None"
    by (auto simp: well_formed_def)
  then show ?thesis
    by (auto simp: queue_stats_def filter_empty_conv split: option.splits)
qed

text \<open>
  C3. On the day on which five users joined and the administrator called twice, three rows
  are waiting and two were completed today, each with a \<open>called_time\<close> and no
  \<open>completed_time\<close>; \<open>queue_stats\<close> reports three waiting and none completed today.
\<close>

theorem stats_miss_called_tickets:
  "queue_stats 30 (serve busy_day (fresh 0 ''h0''))
     = \<lparr>waiting_in_queue = 3, completed_today = 0, total_users = 5\<rparr> \<and>
   map (\<lambda>t. (ticket_number t, status t, called_time t, completed_time t))
       (queue (serve busy_day (fresh 0 ''h0'')))
     = [(''TICKET-001'', Completed, Some 20, None), (''TICKET-002'', Completed, Some 21, None),
        (''TICKET-003'', Waiting, None, None), (''TICKET-004'', Waiting, None, None),
        (''TICKET-005'', Waiting, None, None)]"
  by (simp add: busy_day_def day_one_def run_defs)

subsection \<open>C4: Join of an unknown user\<close>

text \<open>
  C4. On a fresh installation, whose only user has id 1, a Join with user id 99 is answered
  201 with \<open>TICKET-001\<close> at position 1, and the row is in the table.
\<close>

theorem join_of_unknown_user_succeeds:
  "99 \<notin> set (map uid (users (fresh 0 ''h0''))) \<and>
   join_queue 10 (Some 99) Absent (fresh 0 ''h0'')
     = (Joined ''TICKET-001'' (Some 1) (Some ''general''),
        (fresh 0 ''h0'')\<lparr>queue := [waiting_row 1 99 ''TICKET-001'' ''general'' 10 1]\<rparr>)"
  by (simp add: waiting_row_def run_defs)

subsection \<open>C5: CallNext serves the first in line\<close>

text \<open>
  What CallNext does when every waiting row belongs to a user of the users table and no
  connection left open holds the write lock: the
  row served is the waiting row of position 1, no waiting row joined before it, it alone
  becomes completed and gets its \<open>called_time\<close>, and the positions are contiguous again.
\<close>

lemma call_next_serves_first:
  assumes db: "db = serve rs (fresh t h)"
    and admin: "find (\<lambda>u. Some (uid u) = a) (users db) = Some adm" "role adm = ''admin''"
    and free: "bindable a" "\<not> locked db"
    and known: "\<forall>e\<in>set (queue db). status e = Waiting \<longrightarrow> user_id e \<in> uid ` set (users db)"
    and nonempty: "\<exists>e\<in>set (queue db). status e = Waiting"
  shows "\<exists>e usr q'. e \<in> set (queue db) \<and> status e = Waiting \<and> position e = Some 1 \<and>
      (\<forall>x\<in>set (queue db). status x = Waiting \<longrightarrow> join_time e \<le> join_time x) \<and>
      usr \<in> set (users db) \<and> uid usr = user_id e \<and>
      call_next now a db = (Called (ticket_number e) (full_name usr), db\<lparr>queue := q'\<rparr>) \<and>
      length q' = length (queue db) \<and> positions_contiguous q' \<and>
      (\<forall>i<length (queue db).
         (if queue db ! i = e
          then status (q' ! i) = Completed \<and> called_time (q' ! i) = Some now
          else status (q' ! i) = status (queue db ! i) \<and>
               called_time (q' ! i) = called_time (queue db ! i)) \<and>
         ticket_id (q' ! i) = ticket_id (queue db ! i) \<and>
         ticket_number (q' ! i) = ticket_number (queue db ! i) \<and>
         user_id (q' ! i) = user_id (queue db ! i) \<and>
         join_time (q' ! i) = join_time (queue db ! i) \<and>
         completed_time (q' ! i) = completed_time (queue db ! i))"
proof -
  have wf: "well_formed (queue db)" by (simp add: db well_formed_reachable)
  have pc: "positions_contiguous (queue db)" by (rule well_formed_positions [OF wf])
  have rows: "fst ` set (joined_rows db) = {e \<in> set (queue db). status e = Waiting}"
    using known by (force simp: joined_rows_def image_iff)
  obtain x where x: "x \<in> set (queue db)" "status x = Waiting" using nonempty by blast
  then have "joined_rows db \<noteq> []" using rows by auto
  then have "sort_key (\<lambda>r. position (fst r)) (joined_rows db) \<noteq> []"
    by (metis length_sort length_0_conv)
  then obtain np rest where np: "sort_key (\<lambda>r. position (fst r)) (joined_rows db) = np # rest"
    by (cases "sort_key (\<lambda>r. position (fst r)) (joined_rows db)") auto
  let ?e = "fst np" and ?usr = "snd np"
  let ?c = "complete_ticket now (ticket_id ?e) (queue db)"
  let ?q = "update_queue_positions ?c"
  note e = next_person_waiting [OF np]
  have least: "\<forall>r\<in>set (joined_rows db). position ?e \<le> position (fst r)"
    using sort_key_head_least(2) [OF np] by simp
  have least': "position ?e \<le> position y" if "y \<in> set (queue db)" "status y = Waiting" for y
  proof -
    have "y \<in> fst ` set (joined_rows db)" using that rows by simp
    then show ?thesis using least by auto
  qed
  obtain e1 where e1: "e1 \<in> set (queue db)" "status e1 = Waiting" "position e1 = Some 1"
    using first_position_taken [OF pc x] by blast
  obtain k where k: "position ?e = Some k" "1 \<le> k"
    using waiting_positions [OF pc e(1,2)] by blast
  have "position ?e \<le> Some 1" using least' [OF e1(1,2)] e1(3) by simp
  then have p1: "position ?e = Some 1" using k by simp
  have earliest: "join_time ?e \<le> join_time y" if y: "y \<in> set (queue db)" "status y = Waiting" for y
  proof (rule ccontr)
    assume "\<not> join_time ?e \<le> join_time y"
    then have "join_time y < join_time ?e" by simp
    then have "position y < position ?e"
      using pc y e(1,2) by (simp add: positions_contiguous_def Let_def)
    with least' [OF y] show False by simp
  qed
  have res: "call_next now a db = (Called (ticket_number ?e) (full_name ?usr), db\<lparr>queue := ?q\<rparr>)"
    using admin free np by (simp add: call_next_def)
  have len: "length ?q = length (queue db)" by (simp add: complete_ticket_def)
  have pos: "positions_contiguous ?q"
    by (rule well_formed_positions [OF well_formed_complete [OF wf e(1,2)]])
  have each: "(if queue db ! i = ?e
          then status (?q ! i) = Completed \<and> called_time (?q ! i) = Some now
          else status (?q ! i) = status (queue db ! i) \<and>
               called_time (?q ! i) = called_time (queue db ! i)) \<and>
         ticket_id (?q ! i) = ticket_id (queue db ! i) \<and>
         ticket_number (?q ! i) = ticket_number (queue db ! i) \<and>
         user_id (?q ! i) = user_id (queue db ! i) \<and>
         join_time (?q ! i) = join_time (queue db ! i) \<and>
         completed_time (?q ! i) = completed_time (queue db ! i)"
    if i: "i < length (queue db)" for i
  proof -
    have ic: "i < length ?c" using i by (simp add: complete_ticket_def)
    have same: "ticket_id (queue db ! i) = ticket_id ?e \<longleftrightarrow> queue db ! i = ?e"
      using same_id_same_row [OF well_formed_distinct_ids [OF wf] _ e(1), of "queue db ! i"] i
      by auto
    have c: "?c ! i = (if queue db ! i = ?e
        then (queue db ! i)\<lparr>status := Completed, called_time := Some now\<rparr> else queue db ! i)"
      using i same by (simp add: complete_ticket_def)
    have "status (?q ! i) = status (?c ! i)" "called_time (?q ! i) = called_time (?c ! i)"
      "ticket_id (?q ! i) = ticket_id (?c ! i)" "user_id (?q ! i) = user_id (?c ! i)"
      "ticket_number (?q ! i) = ticket_number (?c ! i)"
      "join_time (?q ! i) = join_time (?c ! i)" "completed_time (?q ! i) = completed_time (?c ! i)"
      using ic by (simp_all add: nth_update_queue_positions)
    then show ?thesis unfolding c by simp
  qed
  have "?e \<in> set (queue db) \<and> status ?e = Waiting \<and> position ?e = Some 1 \<and>
      (\<forall>x\<in>set (queue db). status x = Waiting \<longrightarrow> join_time ?e \<le> join_time x) \<and>
      ?usr \<in> set (users db) \<and> uid ?usr = user_id ?e"
    using e p1 earliest by simp
  then show ?thesis
    using res len pos each
    by (intro exI [of _ ?e] exI [of _ ?usr] exI [of _ ?q]) simp
qed

text \<open>
  C5. After a Join with the unknown user id 99 and a Join of the registered user 2, two rows
  wait, the one of user 99 first. CallNext of the administrator serves \<open>TICKET-002\<close> of
  user 2 and leaves \<open>TICKET-001\<close> waiting at position 1; a second CallNext answers that the
  queue is empty.
\<close>

theorem call_next_skips_unknown_user:
  "map (\<lambda>t. (ticket_number t, user_id t, status t, join_time t, position t))
       (queue (serve stray_join (fresh 0 ''h0'')))
     = [(''TICKET-001'', 99, Waiting, 10, Some 1), (''TICKET-002'', 2, Waiting, 12, Some 2)] \<and>
   fst (call_next 20 (Some 1) (serve stray_join (fresh 0 ''h0''))) = Called ''TICKET-002'' ''Ann'' \<and>
   map (\<lambda>t. (ticket_number t, status t, called_time t, position t))
       (queue (snd (call_next 20 (Some 1) (serve stray_join (fresh 0 ''h0'')))))
     = [(''TICKET-001'', Waiting, None, Some 1), (''TICKET-002'', Completed, Some 20, Some 2)] \<and>
   call_next 21 (Some 1) (snd (call_next 20 (Some 1) (serve stray_join (fresh 0 ''h0''))))
     = (EmptyQueue, snd (call_next 20 (Some 1) (serve stray_join (fresh 0 ''h0''))))"
  by (simp add: stray_join_def run_defs)

subsection \<open>C6: a second Join\<close>

lemma find_first_at:
  assumes "n < length xs" "P (xs ! n)" "\<forall>j<n. \<not> P (xs ! j)"
  shows "find P xs = Some (xs ! n)"
  using assms by (auto simp: find_Some_iff)

text \<open>What a Join answered 201 has done: the new row is the last one, and the answer carries
  its number and its position.\<close>

lemma joined_row:
  assumes "join_queue now uo qto db = (Joined tn p qt, db')"
  obtains u where "uo = Some u" "u \<noteq> 0" "int64 u" "\<not> locked db"
    "\<forall>t\<in>set (queue db). \<not> (user_id t = u \<and> status t = Waiting)"
    "tn = generate_ticket_number now (queue db)" "tn \<notin> set (map ticket_number (queue db))"
    "qt = stored qto ''general''"
    "db' = db\<lparr>queue := update_queue_positions (queue db @ [new_ticket now u tn qt (queue db)])\<rparr>"
    "p = position (queue db' ! length (queue db))"
proof -
  let ?q = "queue db"
  let ?tn = "generate_ticket_number now ?q"
  let ?qt = "stored qto ''general''"
  from assms obtain u where u: "uo = Some u" "u \<noteq> 0" "int64 u" "\<not> locked db"
    and nf: "find (\<lambda>t. user_id t = u \<and> status t = Waiting) ?q = None"
    and tn: "?tn \<notin> set (map ticket_number ?q)"
    by (auto simp: join_queue_def Let_def split: option.splits if_splits)
  let ?n = "new_ticket now u ?tn ?qt ?q"
  let ?q' = "update_queue_positions (?q @ [?n])"
  obtain row where row: "find (\<lambda>t. ticket_number t = ?tn) ?q' = Some row"
    and res: "join_queue now (Some u) qto db = (Joined ?tn (position row) ?qt, db\<lparr>queue := ?q'\<rparr>)"
    using join_queue_Joined [OF u(2) nf tn u(3,4), of qto] by blast
  have "(Joined tn p qt, db') = (Joined ?tn (position row) ?qt, db\<lparr>queue := ?q'\<rparr>)"
    using assms [unfolded u(1)] res by (rule trans [OF sym])
  then have eqs: "tn = ?tn" "p = position row" "qt = ?qt" "db' = db\<lparr>queue := ?q'\<rparr>"
    by blast+
  have len: "length ?q < length ?q'" by simp
  have old: "ticket_number (?q' ! j) = ticket_number (?q ! j)" if "j < length ?q" for j
    using that by (simp add: nth_update_queue_positions nth_append)
  have new: "ticket_number (?q' ! length ?q) = ?tn"
    by (simp add: nth_update_queue_positions new_ticket_def)
  have "\<forall>j<length ?q. ticket_number (?q' ! j) \<noteq> ?tn"
    using tn old by (metis length_map nth_map nth_mem)
  then have "find (\<lambda>t. ticket_number t = ?tn) ?q' = Some (?q' ! length ?q)"
    using len new by (intro find_first_at) simp_all
  then have "row = ?q' ! length ?q" using row by simp
  then have "p = position (queue db' ! length ?q)" using eqs by simp
  moreover have "\<forall>t\<in>set ?q. \<not> (user_id t = u \<and> status t = Waiting)"
    using nf by (simp add: find_None_iff)
  ultimately show ?thesis
    using u tn eqs by (intro that [of u]) simp_all
qed

text \<open>Appending a row to a table sorted by a stable sort: the rows whose key is not
  greater keep their rank.\<close>

lemma insort_key_before:
  "f a \<le> f y \<Longrightarrow> insort_key f a (ps @ y # rs) = insort_key f a ps @ y # rs"
  by (induction ps) simp_all

lemma insort_key_after:
  "\<forall>p\<in>set ps. f p < f a \<Longrightarrow> f y < f a \<Longrightarrow>
     insort_key f a (ps @ y # rs) = ps @ y # insort_key f a rs"
  by (induction ps) auto

lemma sort_key_snoc:
  "sort_key f (xs @ [y])
     = filter (\<lambda>z. f z \<le> f y) (sort_key f xs) @ y # filter (\<lambda>z. f y < f z) (sort_key f xs)"
proof (induction xs)
  case Nil
  show ?case by simp
next
  case (Cons a xs)
  let ?S = "sort_key f xs"
  have sorted: "sorted (map f ?S)" by simp
  show ?case
  proof (cases "f a \<le> f y")
    case True
    then have "filter (\<lambda>z. f z \<le> f y) (insort_key f a ?S)
        = insort_key f a (filter (\<lambda>z. f z \<le> f y) ?S)"
      using sorted by (simp add: filter_insort)
    moreover have "filter (\<lambda>z. f y < f z) (insort_key f a ?S) = filter (\<lambda>z. f y < f z) ?S"
      using True by (simp add: filter_insort_triv)
    ultimately show ?thesis
      using Cons True by (simp add: insort_key_before)
  next
    case False
    then have lt: "f y < f a" by simp
    have "filter (\<lambda>z. f z \<le> f y) (insort_key f a ?S) = filter (\<lambda>z. f z \<le> f y) ?S"
      using False by (simp add: filter_insort_triv)
    moreover have "filter (\<lambda>z. f y < f z) (insort_key f a ?S)
        = insort_key f a (filter (\<lambda>z. f y < f z) ?S)"
      using lt sorted by (simp add: filter_insort)
    moreover have "\<forall>p\<in>set (filter (\<lambda>z. f z \<le> f y) ?S). f p < f a"
      using lt by auto
    ultimately show ?thesis
      using Cons lt by (simp add: insort_key_after)
  qed
qed

lemma nth_filter_prefix:
  "sorted (map f S) \<Longrightarrow> k < length S \<Longrightarrow> f (S ! k) \<le> c \<Longrightarrow>
     k < length (filter (\<lambda>z. f z \<le> c) S) \<and> filter (\<lambda>z. f z \<le> c) S ! k = S ! k"
proof (induction S arbitrary: k)
  case Nil
  then show ?case by simp
next
  case (Cons a S)
  show ?case
  proof (cases k)
    case 0
    with Cons.prems show ?thesis by simp
  next
    case (Suc j)
    with Cons.prems have j: "j < length S" "f (S ! j) \<le> c" by simp_all
    then have "f a \<le> f (S ! j)" using Cons.prems(1) by simp
    then have "f a \<le> c" using j(2) by simp
    moreover have "j < length (filter (\<lambda>z. f z \<le> c) S) \<and> filter (\<lambda>z. f z \<le> c) S ! j = S ! j"
      using Cons.prems(1) j by (intro Cons.IH) simp_all
    ultimately show ?thesis using Suc by simp
  qed
qed

lemma waiting_users_snoc_nth:
  assumes "status n = Waiting" "k < length (waiting_users q)"
    and "join_time (waiting_users q ! k) \<le> join_time n"
  shows "k < length (waiting_users (q @ [n])) \<and> waiting_users (q @ [n]) ! k = waiting_users q ! k"
proof -
  let ?S = "waiting_users q"
  let ?P = "filter (\<lambda>z. join_time z \<le> join_time n) ?S"
  have "waiting_users (q @ [n]) = ?P @ n # filter (\<lambda>z. join_time n < join_time z) ?S"
    using assms(1) by (simp add: waiting_users_def sort_key_snoc)
  moreover have "sorted (map join_time ?S)" by (simp add: waiting_users_def)
  then have "k < length ?P \<and> ?P ! k = ?S ! k"
    using assms(2,3) by (rule nth_filter_prefix)
  ultimately show ?thesis by (simp add: nth_append)
qed

text \<open>An event that takes nobody out of the queue, at a time that is not before the join
  time of a waiting row, leaves that row as it is, position included.\<close>

lemma row_stays:
  assumes wf: "well_formed (queue db)" and i: "i < length (queue db)"
    and w: "status (queue db ! i) = Waiting" and t: "join_time (queue db ! i) \<le> t0"
    and e: "stays_in_line t0 e"
  shows "i < length (queue (step e db)) \<and> queue (step e db) ! i = queue db ! i"
proof (cases e db rule: step_cases)
  case Same
  then show ?thesis using i by simp
next
  case (Join now u qt)
  let ?q = "queue db"
  let ?x = "?q ! i"
  let ?n = "new_ticket now u (generate_ticket_number now ?q) (stored qt ''general'') ?q"
  let ?S = "waiting_users ?q"
  let ?S' = "waiting_users (?q @ [?n])"
  let ?ps = "enumerate 1 (map ticket_id ?S')"
  have late: "t0 \<le> now" using e Join(6) by simp
  have "?x \<in> set ?S" using i w by (simp add: waiting_users_def)
  then obtain k where k: "k < length ?S" "?S ! k = ?x"
    by (auto simp: in_set_conv_nth)
  have "map position ?S ! k = map (\<lambda>k. Some (Suc k)) [0..<length ?S] ! k"
    using wf by (simp add: well_formed_def)
  then have pos: "position ?x = Some (Suc k)" using k by simp
  have n: "status ?n = Waiting" "join_time ?n = now" by (simp_all add: new_ticket_def)
  have "join_time (?S ! k) \<le> join_time ?n" using k(2) t late n(2) by simp
  then have k': "k < length ?S'" "?S' ! k = ?x"
    using waiting_users_snoc_nth [OF n(1) k(1)] k(2) by simp_all
  have d: "distinct (map ticket_id (?q @ [?n]))"
    using wf by (simp add: well_formed_def new_ticket_def distinct_map)
  have "map_of (map prod.swap ?ps) (map ticket_id ?S' ! k) = Some (1 + k)"
    using distinct_waiting_ids [OF d] k'(1) by (intro map_of_enumerate) simp_all
  then have "reposition ?ps ?x = ?x\<lparr>position := Some (Suc k)\<rparr>"
    using k' by (simp add: reposition_def)
  then have "reposition ?ps ?x = ?x" using pos by simp
  moreover have "queue (step e db) ! i = reposition ?ps ((?q @ [?n]) ! i)"
    using i unfolding Join(1) update_queue_positions_map [OF d] by (simp add: nth_append)
  ultimately show ?thesis using i Join(1) by (simp add: nth_append)
next
  case (Call now t a)
  then show ?thesis using e by simp
next
  case (Leave now u)
  then show ?thesis using e by simp
qed

lemma row_stays_serve:
  assumes "well_formed (queue db)" "i < length (queue db)"
    and "status (queue db ! i) = Waiting" "join_time (queue db ! i) \<le> t0"
    and "list_all (stays_in_line t0) es"
  shows "i < length (queue (serve es db)) \<and> queue (serve es db) ! i = queue db ! i"
  using assms
proof (induction es arbitrary: db)
  case Nil
  then show ?case by simp
next
  case (Cons e es)
  have one: "i < length (queue (step e db))" "queue (step e db) ! i = queue db ! i"
    using row_stays [OF Cons.prems(1-4), of e] Cons.prems(5) by simp_all
  have "i < length (queue (serve es (step e db))) \<and>
      queue (serve es (step e db)) ! i = queue (step e db) ! i"
    using Cons.prems one well_formed_step [OF Cons.prems(1), of e]
    by (intro Cons.IH) simp_all
  then show ?case using one by simp
qed

lemma join_while_waiting:
  assumes wf: "well_formed (queue db)" and "e \<in> set (queue db)" and "status e = Waiting"
  shows "join_queue now (Some (user_id e)) qto db
    = (AlreadyQueued (ticket_number e) (position e), db)"
proof -
  have "user_id e \<noteq> 0" "int64 (user_id e)" using wf assms(2) by (simp_all add: well_formed_def)
  then show ?thesis
    using waiting_row_of_user [OF assms] by (simp add: join_queue_def)
qed

text \<open>
  With the clock set back between two Joins, the second Join of the first user does not
  return the position his first Join returned: user 2 joins at time 50 and is told position
  1, user 3 joins at time 40, and user 2, who joins again with no Leave and no CallNext in
  between, is told position 2.
\<close>

theorem second_join_after_clock_set_back:
  "fst (join_queue 50 (Some 2) Absent (serve two_registered (fresh 0 ''h0'')))
     = Joined ''TICKET-001'' (Some 1) (Some ''general'') \<and>
   join_queue 60 (Some 2) Absent (serve clock_set_back (fresh 0 ''h0''))
     = (AlreadyQueued ''TICKET-001'' (Some 2), serve clock_set_back (fresh 0 ''h0''))"
  by (simp add: clock_set_back_def two_registered_def run_defs)

text \<open>
  C6, amended. When a user holds a waiting row \<open>e\<close>, a Join of that user answers
  AlreadyQueued with the ticket number and the position of \<open>e\<close> and leaves the database
  as it is. These are the number and the position his successful Join returned, whatever
  was served in between, provided that was no Leave and no CallNext and no Join at a time
  before that of his own Join (only Registers, garbage collections, and Joins while the
  clock did not go back).
\<close>

theorem duplicate_join_already_queued:
  "(e \<in> set (queue (serve rs (fresh t h))) \<and> status e = Waiting \<longrightarrow>
      join_queue now (Some (user_id e)) qto (serve rs (fresh t h))
        = (AlreadyQueued (ticket_number e) (position e), serve rs (fresh t h))) \<and>
   (db = serve rs (fresh t h) \<and> join_queue t0 (Some u) qto0 db = (Joined tn p qt, db1) \<and>
    list_all (stays_in_line t0) es \<longrightarrow>
      join_queue now (Some u) qto (serve es db1) = (AlreadyQueued tn p, serve es db1))"
proof (intro conjI impI)
  assume "e \<in> set (queue (serve rs (fresh t h))) \<and> status e = Waiting"
  then show "join_queue now (Some (user_id e)) qto (serve rs (fresh t h))
        = (AlreadyQueued (ticket_number e) (position e), serve rs (fresh t h))"
    using join_while_waiting [OF well_formed_reachable] by blast
next
  assume a: "db = serve rs (fresh t h) \<and> join_queue t0 (Some u) qto0 db = (Joined tn p qt, db1) \<and>
    list_all (stays_in_line t0) es"
  let ?q = "queue db"
  let ?k = "length ?q"
  have wf: "well_formed ?q" using a by (simp add: well_formed_reachable)
  from a obtain v where v: "Some u = Some v"
      "db1 = db\<lparr>queue := update_queue_positions (?q @ [new_ticket t0 v tn qt ?q])\<rparr>"
      "p = position (queue db1 ! ?k)"
    by (blast elim: joined_row)
  from a have j: "join_queue t0 (Some u) qto0 db = (Joined tn p qt, db1)" by blast
  have "db1 = step (Request (JoinQueue t0 (Some u) qto0)) db" by (simp add: j)
  then have wf1: "well_formed (queue db1)"
    using well_formed_step [OF wf, of "Request (JoinQueue t0 (Some u) qto0)"] by simp
  have k: "?k < length (queue db1)" using v(2) by simp
  have row: "user_id (queue db1 ! ?k) = u" "status (queue db1 ! ?k) = Waiting"
    "ticket_number (queue db1 ! ?k) = tn" "join_time (queue db1 ! ?k) = t0"
    using v(1,2) by (simp_all add: nth_update_queue_positions new_ticket_def)
  let ?db2 = "serve es db1"
  have stay: "?k < length (queue ?db2)" "queue ?db2 ! ?k = queue db1 ! ?k"
    using row_stays_serve [OF wf1 k row(2), of t0 es] row(4) a by simp_all
  have wf2: "well_formed (queue ?db2)" by (rule well_formed_serve [OF wf1])
  have "queue ?db2 ! ?k \<in> set (queue ?db2)" using stay(1) by simp
  then have "join_queue now (Some (user_id (queue ?db2 ! ?k))) qto ?db2
      = (AlreadyQueued (ticket_number (queue ?db2 ! ?k)) (position (queue ?db2 ! ?k)), ?db2)"
    using row(2) stay(2) by (intro join_while_waiting [OF wf2]) simp_all
  then show "join_queue now (Some u) qto (serve es db1) = (AlreadyQueued tn p, serve es db1)"
    using stay(2) row v(3) by simp
qed

theorem duplicate_join_witness:
  "waiting_row 2 3 ''TICKET-002'' ''general'' 11 2 \<in> set (queue (serve day_one (fresh 0 ''h0''))) \<and>
   join_queue 30 (Some 3) (Text ''vip'') (serve day_one (fresh 0 ''h0''))
     = (AlreadyQueued ''TICKET-002'' (Some 2), serve day_one (fresh 0 ''h0'')) \<and>
   join_queue 12 (Some 4) (Text ''vip'') (serve two_joined (fresh 0 ''h0''))
     = (Joined ''TICKET-003'' (Some 3) (Some ''vip''), serve day_one (fresh 0 ''h0'')) \<and>
   list_all (stays_in_line 12)
     [Request (Register 13 (Some ''h4'') (Some ''dee'') (Some ''pw'') (Some ''Dee'') Absent Absent),
      Request (JoinQueue 13 (Some 5) Absent), Collect] \<and>
   fst (join_queue 30 (Some 4) Absent
     (serve [Request (Register 13 (Some ''h4'') (Some ''dee'') (Some ''pw'') (Some ''Dee'') Absent Absent),
             Request (JoinQueue 13 (Some 5) Absent), Collect]
        (serve day_one (fresh 0 ''h0''))))
     = AlreadyQueued ''TICKET-003'' (Some 3)"
proof -
  let ?e = "waiting_row 2 3 ''TICKET-002'' ''general'' 11 2"
  let ?es = "[Request (Register 13 (Some ''h4'') (Some ''dee'') (Some ''pw'') (Some ''Dee'') Absent Absent),
      Request (JoinQueue 13 (Some 5) Absent), Collect]"
  have e: "?e \<in> set (queue (serve day_one (fresh 0 ''h0'')))"
    by (simp add: serve_day_one day_one_queue_def)
  have w: "status ?e = Waiting" "user_id ?e = 3" "ticket_number ?e = ''TICKET-002''"
    "position ?e = Some 2"
    by (simp_all add: waiting_row_def)
  have first: "join_queue 12 (Some 4) (Text ''vip'') (serve two_joined (fresh 0 ''h0''))
     = (Joined ''TICKET-003'' (Some 3) (Some ''vip''), serve day_one (fresh 0 ''h0''))"
    unfolding serve_two_joined serve_day_one
    by (simp add: day_one_queue_def waiting_row_def run_defs)
  have line: "list_all (stays_in_line 12) ?es" by simp
  show ?thesis
    using e w first line
      duplicate_join_already_queued [where e = ?e and rs = day_one and t = 0 and h = "''h0''"
        and now = 30 and qto = "Text ''vip''" and ?t0.0 = 12 and u = 4
        and ?qto0.0 = "Text ''vip''" and db = "serve day_one (fresh 0 ''h0'')"
        and tn = "''TICKET-003''" and p = "Some 3" and qt = "Some ''vip''"
        and ?db1.0 = "serve day_one (fresh 0 ''h0'')" and es = ?es]
      duplicate_join_already_queued [where e = ?e and rs = two_joined and t = 0 and h = "''h0''"
        and now = 30 and qto = Absent and ?t0.0 = 12 and u = 4
        and ?qto0.0 = "Text ''vip''" and db = "serve two_joined (fresh 0 ''h0'')"
        and tn = "''TICKET-003''" and p = "Some 3" and qt = "Some ''vip''"
        and ?db1.0 = "serve day_one (fresh 0 ''h0'')" and es = ?es]
    by simp
qed

subsection \<open>C7: the number a Join assigns\<close>





subsection \<open>C8: Leave\<close>

text \<open>
  While no connection left open holds the write lock, Leave of a user who holds a waiting
  row answers Left: that row, the only waiting row of the user, becomes cancelled with
  \<open>completed_time\<close> the current time, every other row keeps its status and
  \<open>completed_time\<close>, no row changes in any column but these and \<open>position\<close>, and the
  positions are contiguous again. Leave of a user with no waiting row answers NotInQueue and
  changes nothing.
\<close>

lemma leave_queue_cancels:
  assumes "db = serve rs (fresh t h)" and free: "\<not> locked db"
  shows "if \<exists>e\<in>set (queue db). user_id e = u \<and> status e = Waiting
         then \<exists>q'. leave_queue now (Some u) db = (Left, db\<lparr>queue := q'\<rparr>) \<and>
                length q' = length (queue db) \<and>
                length (filter (\<lambda>e. user_id e = u \<and> status e = Waiting) (queue db)) = 1 \<and>
                positions_contiguous q' \<and>
                (\<forall>i<length (queue db).
                   (if user_id (queue db ! i) = u \<and> status (queue db ! i) = Waiting
                    then status (q' ! i) = Cancelled \<and> completed_time (q' ! i) = Some now
                    else status (q' ! i) = status (queue db ! i) \<and>
                         completed_time (q' ! i) = completed_time (queue db ! i)) \<and>
                   ticket_id (q' ! i) = ticket_id (queue db ! i) \<and>
                   user_id (q' ! i) = user_id (queue db ! i) \<and>
                   ticket_number (q' ! i) = ticket_number (queue db ! i) \<and>
                   queue_type (q' ! i) = queue_type (queue db ! i) \<and>
                   join_time (q' ! i) = join_time (queue db ! i) \<and>
                   called_time (q' ! i) = called_time (queue db ! i))
         else leave_queue now (Some u) db = (NotInQueue, db)"
proof (cases "\<exists>e\<in>set (queue db). user_id e = u \<and> status e = Waiting")
  case False
  then have "filter (\<lambda>t. user_id t = u \<and> status t = Waiting) (queue db) = []"
    by (auto simp: filter_empty_conv)
  then show ?thesis using False free by (simp add: leave_queue_def)
next
  case True
  have wf: "well_formed (queue db)" by (simp add: assms well_formed_reachable)
  let ?c = "cancel_tickets now u (queue db)"
  let ?q = "update_queue_positions ?c"
  have ne: "filter (\<lambda>t. user_id t = u \<and> status t = Waiting) (queue db) \<noteq> []"
    using True by (auto simp: filter_empty_conv)
  then have res: "leave_queue now (Some u) db = (Left, db\<lparr>queue := ?q\<rparr>)"
    using free by (simp add: leave_queue_def)
  have len: "length ?q = length (queue db)" by (simp add: cancel_tickets_def)
  have one: "length (filter (\<lambda>e. user_id e = u \<and> status e = Waiting) (queue db)) = 1"
    using one_waiting_row [OF wf, of u] ne
    by (cases "filter (\<lambda>e. user_id e = u \<and> status e = Waiting) (queue db)") simp_all
  have pos: "positions_contiguous ?q"
    by (rule well_formed_positions [OF well_formed_cancel [OF wf]])
  have rows: "(if user_id (queue db ! i) = u \<and> status (queue db ! i) = Waiting
                    then status (?q ! i) = Cancelled \<and> completed_time (?q ! i) = Some now
                    else status (?q ! i) = status (queue db ! i) \<and>
                         completed_time (?q ! i) = completed_time (queue db ! i)) \<and>
                   ticket_id (?q ! i) = ticket_id (queue db ! i) \<and>
                   user_id (?q ! i) = user_id (queue db ! i) \<and>
                   ticket_number (?q ! i) = ticket_number (queue db ! i) \<and>
                   queue_type (?q ! i) = queue_type (queue db ! i) \<and>
                   join_time (?q ! i) = join_time (queue db ! i) \<and>
                   called_time (?q ! i) = called_time (queue db ! i)"
    if i: "i < length (queue db)" for i
  proof -
    have ic: "i < length ?c" using i by (simp add: cancel_tickets_def)
    have c: "?c ! i = (if user_id (queue db ! i) = u \<and> status (queue db ! i) = Waiting
        then (queue db ! i)\<lparr>status := Cancelled, completed_time := Some now\<rparr> else queue db ! i)"
      using i by (simp add: cancel_tickets_def)
    have "status (?q ! i) = status (?c ! i)" "completed_time (?q ! i) = completed_time (?c ! i)"
      "ticket_id (?q ! i) = ticket_id (?c ! i)" "user_id (?q ! i) = user_id (?c ! i)"
      "ticket_number (?q ! i) = ticket_number (?c ! i)" "queue_type (?q ! i) = queue_type (?c ! i)"
      "join_time (?q ! i) = join_time (?c ! i)" "called_time (?q ! i) = called_time (?c ! i)"
      using ic by (simp_all add: nth_update_queue_positions)
    then show ?thesis unfolding c by simp
  qed
  show ?thesis
    using True res len one pos rows by (simp only: if_True) blast
qed

text \<open>While the write lock is held, Leave is answered 500 for every user.\<close>

lemma leave_queue_locked:
  "locked db \<Longrightarrow> leave_queue now (Some u) db = (Internal, db)"
  by (simp add: leave_queue_def)

lemma serve_rejected_join:
  "serve rejected_join (fresh 0 ''h0'')
     = \<lparr>users = day_one_users,
        queue = [(waiting_row 1 2 ''TICKET-001'' ''general'' 10 1)
                   \<lparr>status := Completed, called_time := Some 20\<rparr>,
                 waiting_row 2 3 ''TICKET-002'' ''general'' 11 1,
                 waiting_row 3 4 ''TICKET-003'' ''vip'' 12 2],
        locked = True\<rparr>"
  by (simp add: rejected_join_def day_one_def day_one_users_def waiting_row_def run_defs)

text \<open>
  C8. After the day of three Joins, the first in line is called and joins again; that Join
  is answered 500, because \<open>TICKET-003\<close> is taken, and its connection stays open. User 3
  holds the waiting ticket \<open>TICKET-002\<close>, but Leave of user 3 is answered 500 and the
  database is as before: the ticket is not cancelled. Once the garbage collector has run,
  the same Leave is answered Left.
\<close>

theorem leave_blocked_by_open_connection:
  "fst (join_queue 21 (Some 2) Absent
          (serve (day_one @ [Request (CallNext 20 (Some 1))]) (fresh 0 ''h0''))) = Internal \<and>
   waiting_row 2 3 ''TICKET-002'' ''general'' 11 1 \<in> set (queue (serve rejected_join (fresh 0 ''h0''))) \<and>
   leave_queue 22 (Some 3) (serve rejected_join (fresh 0 ''h0''))
     = (Internal, serve rejected_join (fresh 0 ''h0'')) \<and>
   fst (leave_queue 22 (Some 3) (serve (rejected_join @ [Collect]) (fresh 0 ''h0''))) = Left"
proof -
  have "fst (join_queue 21 (Some 2) Absent
          (serve (day_one @ [Request (CallNext 20 (Some 1))]) (fresh 0 ''h0''))) = Internal"
    by (simp add: day_one_def run_defs)
  moreover have "fst (leave_queue 22 (Some 3) (serve (rejected_join @ [Collect]) (fresh 0 ''h0'')))
      = Left"
    by (simp add: rejected_join_def day_one_def run_defs)
  moreover have "leave_queue 22 (Some 3) (serve rejected_join (fresh 0 ''h0''))
     = (Internal, serve rejected_join (fresh 0 ''h0''))"
    unfolding serve_rejected_join by (simp add: leave_queue_def)
  moreover have "waiting_row 2 3 ''TICKET-002'' ''general'' 11 1
      \<in> set (queue (serve rejected_join (fresh 0 ''h0'')))"
    unfolding serve_rejected_join by simp
  ultimately show ?thesis by simp
qed

subsection \<open>C9: terminal statuses\<close>

text \<open>
  C9. Whatever requests are served after a reachable database, every row stays at its place
  with its id, a row that is completed or cancelled keeps that status, and a status that
  changes was \<open>Waiting\<close> and becomes \<open>Completed\<close> or \<open>Cancelled\<close>.
\<close>

theorem status_never_leaves_terminal:
  assumes "db = serve rs (fresh t h)" and "db' = serve rs' db" and "i < length (queue db)"
  shows "i < length (queue db') \<and>
         ticket_id (queue db' ! i) = ticket_id (queue db ! i) \<and>
         (status (queue db ! i) \<noteq> Waiting \<longrightarrow> status (queue db' ! i) = status (queue db ! i)) \<and>
         (status (queue db' ! i) \<noteq> status (queue db ! i) \<longrightarrow>
            status (queue db ! i) = Waiting \<and>
            (status (queue db' ! i) = Completed \<or> status (queue db' ! i) = Cancelled))"
proof -
  have wf: "well_formed (queue db)" by (simp add: assms(1) well_formed_reachable)
  have main: "i < length (queue db')" "ticket_id (queue db' ! i) = ticket_id (queue db ! i)"
    "status (queue db ! i) \<noteq> Waiting \<longrightarrow> status (queue db' ! i) = status (queue db ! i)"
    using status_steps [OF wf assms(3), of rs'] by (simp_all add: assms(2))
  moreover have "status (queue db ! i) = Waiting \<and>
      (status (queue db' ! i) = Completed \<or> status (queue db' ! i) = Cancelled)"
    if "status (queue db' ! i) \<noteq> status (queue db ! i)"
    using that main(3) by (cases "status (queue db' ! i)") auto
  ultimately show ?thesis by blast
qed

theorem status_witness:
  "map status (queue (serve (day_one @ [Request (CallNext 20 (Some 1))]) (fresh 0 ''h0'')))
     = [Completed, Waiting, Waiting] \<and>
   map status
     (queue (serve [Request (JoinQueue 21 (Some 2) Absent), Request (LeaveQueue 22 (Some 3)),
                    Collect, Request (LeaveQueue 23 (Some 3)), Request (CallNext 24 (Some 1))]
               (serve (day_one @ [Request (CallNext 20 (Some 1))]) (fresh 0 ''h0''))))
     = [Completed, Cancelled, Completed]"
proof -
  let ?db = "serve (day_one @ [Request (CallNext 20 (Some 1))]) (fresh 0 ''h0'')"
  let ?rs = "[Request (JoinQueue 21 (Some 2) Absent), Request (LeaveQueue 22 (Some 3)),
              Collect, Request (LeaveQueue 23 (Some 3)), Request (CallNext 24 (Some 1))]"
  have before: "map status (queue ?db) = [Completed, Waiting, Waiting]"
    by (simp add: day_one_def run_defs)
  have after: "map status (queue (serve ?rs ?db)) = [Completed, Cancelled, Completed]"
    by (simp add: day_one_def run_defs)
  have "0 < length (queue ?db)"
    using before by (metis length_map length_greater_0_conv list.distinct(1))
  from status_never_leaves_terminal [OF refl refl this, of ?rs] before after
  show ?thesis by simp
qed

subsection \<open>C10: a failing request changes nothing\<close>

text \<open>
  C10. A Join answered AlreadyQueued, a Leave answered NotInQueue and a CallNext answered
  PermissionDenied or EmptyQueue leave the database unchanged; a caller id that matches no
  user is answered PermissionDenied, and the database is unchanged. (A caller id that is
  no 64-bit integer, which no user can have, is answered 500, the database unchanged.)
\<close>

theorem failures_change_nothing:
  "(join_queue now uo qto db = (AlreadyQueued tn p, db') \<longrightarrow> db' = db) \<and>
   (leave_queue now uo db = (NotInQueue, db') \<longrightarrow> db' = db) \<and>
   (call_next now a db = (PermissionDenied, db') \<longrightarrow> db' = db) \<and>
   (call_next now a db = (EmptyQueue, db') \<longrightarrow> db' = db) \<and>
   (a \<notin> set (map (\<lambda>u. Some (uid u)) (users db)) \<longrightarrow>
      call_next now a db = (if bindable a then PermissionDenied else Internal, db))"
proof (intro conjI impI)
  assume "join_queue now uo qto db = (AlreadyQueued tn p, db')"
  then show "db' = db"
    by (auto simp: join_queue_def Let_def split: option.splits if_splits)
next
  assume "leave_queue now uo db = (NotInQueue, db')"
  then show "db' = db"
    by (auto simp: leave_queue_def split: option.splits if_splits)
next
  assume "call_next now a db = (PermissionDenied, db')"
  then show "db' = db"
    by (auto simp: call_next_def split: option.splits if_splits list.splits)
next
  assume "call_next now a db = (EmptyQueue, db')"
  then show "db' = db"
    by (auto simp: call_next_def split: option.splits if_splits list.splits)
next
  assume "a \<notin> set (map (\<lambda>u. Some (uid u)) (users db))"
  then have "find (\<lambda>u. Some (uid u) = a) (users db) = None"
    by (auto simp: find_None_iff)
  then show "call_next now a db = (if bindable a then PermissionDenied else Internal, db)"
    by (simp add: call_next_def)
qed

theorem failures_witness:
  "join_queue 30 (Some 3) Absent (serve day_one (fresh 0 ''h0''))
     = (AlreadyQueued ''TICKET-002'' (Some 2), serve day_one (fresh 0 ''h0'')) \<and>
   leave_queue 30 (Some 9) (serve day_one (fresh 0 ''h0''))
     = (NotInQueue, serve day_one (fresh 0 ''h0'')) \<and>
   call_next 30 (Some 2) (serve day_one (fresh 0 ''h0''))
     = (PermissionDenied, serve day_one (fresh 0 ''h0'')) \<and>
   call_next 30 (Some 1) (fresh 0 ''h0'') = (EmptyQueue, fresh 0 ''h0'') \<and>
   Some 9 \<notin> set (map (\<lambda>u. Some (uid u)) (users (serve day_one (fresh 0 ''h0'')))) \<and>
   bindable (Some 9) \<and>
   call_next 30 (Some 9) (serve day_one (fresh 0 ''h0''))
     = (PermissionDenied, serve day_one (fresh 0 ''h0''))"
proof -
  let ?db = "serve day_one (fresh 0 ''h0'')"
  have j: "join_queue 30 (Some 3) Absent ?db = (AlreadyQueued ''TICKET-002'' (Some 2), ?db)"
    and l: "leave_queue 30 (Some 9) ?db = (NotInQueue, ?db)"
    and c: "call_next 30 (Some 2) ?db = (PermissionDenied, ?db)"
    and u: "Some 9 \<notin> set (map (\<lambda>u. Some (uid u)) (users ?db))"
    unfolding serve_day_one
    by (simp_all add: day_one_users_def day_one_queue_def waiting_row_def run_defs)
  have b: "bindable (Some 9)" by (simp add: bindable_def int64_def)
  have e: "call_next 30 (Some 1) (fresh 0 ''h0'') = (EmptyQueue, fresh 0 ''h0'')"
    by (simp add: run_defs)
  show ?thesis
    using j l c e u b
      failures_change_nothing [where now = 30 and uo = "Some 3" and qto = Absent and db = ?db
        and tn = "''TICKET-002''" and p = "Some 2" and db' = ?db and a = "Some 9"]
    by simp
qed


end
